theory Spec2Isabelle
  imports Main
begin

section \<open>ezBIND.js: the path model\<close>

text \<open>
  JavaScript strings are modelled as \<open>string\<close>; a character stands for a UTF-16 code
  unit below 256. A path key is a number (pushed by \<open>parseInt\<close>) or a string.
  Numbers are modelled as \<open>nat\<close>, which is exact for indices below \<open>2 ^ 53\<close>.
\<close>

datatype key = Num nat | Str string

definition dquote :: char where "dquote = CHR 0x22"
definition squote :: char where "squote = CHR 0x27"
definition backslash :: char where "backslash = CHR 0x5C"

text \<open>\<open>/[A-Za-z_$]/\<close>, \<open>/[A-Za-z0-9_$]/\<close>, \<open>/[0-9]/\<close> and \<open>/\s/\<close>.\<close>

definition isDigit :: "char \<Rightarrow> bool" where
  "isDigit c = (c \<in> set ''0123456789'')"

definition isIdentStart :: "char \<Rightarrow> bool" where
  "isIdentStart c = (c \<in> set ''ABCDEFGHIJKLMNOPQRSTUVWXYZabcdefghijklmnopqrstuvwxyz_$'')"

definition isIdentChar :: "char \<Rightarrow> bool" where
  "isIdentChar c = (isIdentStart c \<or> isDigit c)"

definition isSpace :: "char \<Rightarrow> bool" where
  "isSpace c = (c \<in> set [CHR 0x09, CHR 0x0A, CHR 0x0B, CHR 0x0C, CHR 0x0D, CHR 0x20, CHR 0xA0])"

text \<open>\<open>String.prototype.trim\<close>.\<close>

definition trim :: "string \<Rightarrow> string" where
  "trim s = rev (dropWhile isSpace (rev (dropWhile isSpace s)))"

text \<open>\<open>parseInt(num, 10)\<close> on a string of decimal digits.\<close>

definition parseInt :: "string \<Rightarrow> nat" where
  "parseInt ds = foldl (\<lambda>n c. 10 * n + (of_char c - 48)) 0 ds"

text \<open>\<open>while (i < s.length && /\s/.test(s[i])) i++\<close> and \<open>if (s[i] === c) i++\<close>,
  on the rest of the input from position \<open>i\<close>.\<close>

definition skip_ws :: "string \<Rightarrow> string" where
  "skip_ws s = dropWhile isSpace s"

definition skip_char :: "char \<Rightarrow> string \<Rightarrow> string" where
  "skip_char c s = (case s of [] \<Rightarrow> [] | d # ds \<Rightarrow> if d = c then ds else s)"

text \<open>The loop that reads a quoted key up to the closing quote \<open>q\<close>: the buffer and the
  rest of the input, which starts at the closing quote when there is one.\<close>

fun scan_quoted :: "char \<Rightarrow> string \<Rightarrow> string \<times> string" where
  "scan_quoted q [] = ([], [])"
| "scan_quoted q [c] = (if c = q then ([], [c]) else ([c], []))"
| "scan_quoted q (c # d # ds) =
     (if c = q then ([], c # d # ds)
      else if c = backslash then (case scan_quoted q ds of (buf, r) \<Rightarrow> (d # buf, r))
      else (case scan_quoted q (d # ds) of (buf, r) \<Rightarrow> (c # buf, r)))"

lemma scan_quoted_length: "length (snd (scan_quoted q s)) \<le> length s"
  by (induction q s rule: scan_quoted.induct) (auto split: prod.splits)

lemma skip_ws_length: "length (skip_ws s) \<le> length s"
  by (simp add: skip_ws_def length_dropWhile_le)

lemma skip_char_length: "length (skip_char c s) \<le> length s"
  by (simp add: skip_char_def split: list.splits)

lemma bracket_rest_length:
  "length (skip_char c (skip_ws (skip_char d (snd (scan_quoted q s))))) \<le> length s"
  by (meson le_trans scan_quoted_length skip_char_length skip_ws_length)

lemma number_rest_length:
  "length (skip_char c (skip_ws (dropWhile P s))) \<le> length s"
  by (meson le_trans length_dropWhile_le skip_char_length skip_ws_length)

text \<open>The main loop of \<open>_parsePath\<close>, on the rest of the input from position \<open>i\<close>.\<close>

function parse_loop :: "string \<Rightarrow> key list" where
  "parse_loop [] = []"
| "parse_loop (ch # cs) =
     (if ch = CHR ''.'' then parse_loop cs
      else if ch = CHR ''['' then
        (let r = skip_ws cs in
         if r \<noteq> [] \<and> (hd r = dquote \<or> hd r = squote) then
           Str (fst (scan_quoted (hd r) (tl r))) #
             parse_loop (skip_char CHR '']'' (skip_ws (skip_char (hd r) (snd (scan_quoted (hd r) (tl r))))))
         else
           (if takeWhile isDigit r \<noteq> [] then [Num (parseInt (takeWhile isDigit r))] else []) @
             parse_loop (skip_char CHR '']'' (skip_ws (dropWhile isDigit r))))
      else if isIdentStart ch then
        Str (takeWhile isIdentChar (ch # cs)) # parse_loop (dropWhile isIdentChar (ch # cs))
      else parse_loop cs)"
  by pat_completeness auto
termination
proof (relation "measure length", goal_cases)
  case 1
  show ?case by simp
next
  case (2 ch cs)
  show ?case by simp
next
  case (3 ch cs r)
  have "length (tl r) \<le> length cs"
    using 3 skip_ws_length [of cs] by (cases r) auto
  then show ?case
    using bracket_rest_length [of "CHR '']''" "hd r" "hd r" "tl r"] by simp
next
  case (4 ch cs r)
  then show ?case
    using number_rest_length [of "CHR '']''" isDigit "skip_ws cs"] skip_ws_length [of cs] by simp
next
  case (5 ch cs)
  then show ?case
    by (simp add: isIdentChar_def length_dropWhile_le less_Suc_eq_le)
next
  case (6 ch cs)
  show ?case by simp
qed

definition parsePath :: "string \<Rightarrow> key list" where
  "parsePath pathString = parse_loop (trim pathString)"


text \<open>\<open>String(k)\<close> for a number key: the decimal digits, no leading zero.\<close>

definition digit_char :: "nat \<Rightarrow> char" where
  "digit_char d = ''0123456789'' ! (d mod 10)"

function dec_digits :: "nat \<Rightarrow> string" where
  "dec_digits n =
     (if n < 10 then [digit_char n] else dec_digits (n div 10) @ [digit_char (n mod 10)])"
  by pat_completeness auto
termination
  by (relation "measure id") auto

text \<open>\<open>JSON.stringify\<close> of a string (QuoteJSONString of ECMA-262), for code units
  below 256.\<close>

definition hex_digit :: "nat \<Rightarrow> char" where
  "hex_digit n = ''0123456789abcdef'' ! (n mod 16)"

definition json_escape :: "char \<Rightarrow> string" where
  "json_escape c =
     (if c = CHR 0x08 then [backslash, CHR ''b'']
      else if c = CHR 0x09 then [backslash, CHR ''t'']
      else if c = CHR 0x0A then [backslash, CHR ''n'']
      else if c = CHR 0x0C then [backslash, CHR ''f'']
      else if c = CHR 0x0D then [backslash, CHR ''r'']
      else if c = dquote then [backslash, dquote]
      else if c = backslash then [backslash, backslash]
      else if (of_char c :: nat) < 32 then
        [backslash, CHR ''u'', CHR ''0'', CHR ''0'',
         hex_digit (of_char c div 16), hex_digit (of_char c)]
      else [c])"

definition json_stringify :: "string \<Rightarrow> string" where
  "json_stringify ks = dquote # concat (map json_escape ks) @ [dquote]"

text \<open>\<open>/^\d+$/\<close> and \<open>/^[A-Za-z_$][A-Za-z0-9_$]*$/\<close>.\<close>

definition all_digits :: "string \<Rightarrow> bool" where
  "all_digits ks = (ks \<noteq> [] \<and> list_all isDigit ks)"

definition is_ident :: "string \<Rightarrow> bool" where
  "is_ident ks = (case ks of [] \<Rightarrow> False | c # cs \<Rightarrow> isIdentStart c \<and> list_all isIdentChar cs)"

text \<open>One round of the loop of \<open>_pathToString\<close>: the text appended to \<open>s\<close> for key \<open>k\<close>.\<close>

fun key_segment :: "string \<Rightarrow> key \<Rightarrow> string" where
  "key_segment s (Num n) = ''['' @ dec_digits n @ '']''"
| "key_segment s (Str ks) =
     (if all_digits ks then ''['' @ ks @ '']''
      else if is_ident ks then (if s \<noteq> [] then ''.'' else []) @ ks
      else ''['' @ json_stringify ks @ '']'')"

fun pathToString_from :: "string \<Rightarrow> key list \<Rightarrow> string" where
  "pathToString_from s [] = s"
| "pathToString_from s (k # pathArr) = pathToString_from (s @ key_segment s k) pathArr"

definition pathToString :: "key list \<Rightarrow> string" where
  "pathToString pathArr = pathToString_from [] pathArr"



subsection \<open>Round trip of the canonical form\<close>

text \<open>Keys on which \<open>_pathToString\<close> and \<open>_parsePath\<close> are inverse: a numeric index
  (below \<open>2 ^ 53\<close>, where the model of numbers is exact), or a string that is not all
  digits and holds no control character (which \<open>JSON.stringify\<close> would write as an escape
  that \<open>_parsePath\<close> does not read back).\<close>

fun plain_key :: "key \<Rightarrow> bool" where
  "plain_key (Num n) = (n < 2 ^ 53)"
| "plain_key (Str ks) = (\<not> all_digits ks \<and> list_all (\<lambda>c. 32 \<le> (of_char c :: nat)) ks)"

text \<open>A rest of the input at which an identifier ends: the end, a dot or a bracket.\<close>

definition boundary :: "string \<Rightarrow> bool" where
  "boundary t = (case t of [] \<Rightarrow> True | c # _ \<Rightarrow> c = CHR ''.'' \<or> c = CHR ''['')"

lemma parseInt_snoc: "parseInt (ds @ [c]) = 10 * parseInt ds + (of_char c - 48)"
  by (simp add: parseInt_def)

lemma digit_char: "d < 10 \<Longrightarrow> isDigit (digit_char d) \<and> (of_char (digit_char d) :: nat) = 48 + d"
proof -
  assume "d < 10"
  then have "d \<in> {0, 1, 2, 3, 4, 5, 6, 7, 8, 9}" by auto
  then show ?thesis by (auto simp: isDigit_def digit_char_def)
qed

lemma dec_digits_digits: "list_all isDigit (dec_digits n) \<and> dec_digits n \<noteq> []"
proof (induction n rule: dec_digits.induct)
  case (1 n)
  show ?case
  proof (cases "n < 10")
    case True
    then show ?thesis using digit_char [of n] by (subst dec_digits.simps, simp)+
  next
    case False
    then show ?thesis using 1 digit_char [of "n mod 10"]
      by (subst dec_digits.simps, simp)+
  qed
qed

lemma parseInt_dec_digits: "parseInt (dec_digits n) = n"
proof (induction n rule: dec_digits.induct)
  case (1 n)
  show ?case
  proof (cases "n < 10")
    case True
    then show ?thesis using digit_char [of n]
      by (subst dec_digits.simps) (simp add: parseInt_def)
  next
    case False
    then show ?thesis using 1 digit_char [of "n mod 10"]
      by (subst dec_digits.simps) (simp add: parseInt_snoc)
  qed
qed


lemma digit_not_special:
  "isDigit c \<Longrightarrow> \<not> isSpace c \<and> c \<noteq> dquote \<and> c \<noteq> squote"
  by (auto simp: isDigit_def isSpace_def dquote_def squote_def)

lemma identStart_not_special:
  "isIdentStart c \<Longrightarrow> c \<noteq> CHR ''.'' \<and> c \<noteq> CHR ''['' \<and> \<not> isSpace c \<and> isIdentChar c"
  by (auto simp: isIdentStart_def isSpace_def isIdentChar_def)

lemma identChar_not_space: "isIdentChar c \<Longrightarrow> \<not> isSpace c"
  by (auto simp: isIdentStart_def isSpace_def isIdentChar_def isDigit_def)

lemma boundary_takeWhile:
  "boundary t \<Longrightarrow> takeWhile isIdentChar t = [] \<and> dropWhile isIdentChar t = t"
  by (cases t) (auto simp: boundary_def isIdentChar_def isIdentStart_def isDigit_def)

lemma close_bracket_facts:
  "\<not> isDigit CHR '']'' \<and> \<not> isSpace CHR '']'' \<and> \<not> isSpace CHR ''['' \<and> \<not> isSpace dquote"
  by (simp add: isDigit_def isSpace_def dquote_def)


lemma parse_loop_number:
  assumes "skip_ws cs = r" and "r = [] \<or> (hd r \<noteq> dquote \<and> hd r \<noteq> squote)"
    and "takeWhile isDigit r = num" and "num \<noteq> []"
    and "skip_char CHR '']'' (skip_ws (dropWhile isDigit r)) = r2"
  shows "parse_loop (CHR ''['' # cs) = Num (parseInt num) # parse_loop r2"
  using assms by (auto simp: Let_def)

lemma parse_loop_quoted:
  assumes "skip_ws cs = q # r" and "q = dquote \<or> q = squote"
    and "scan_quoted q r = (buf, r1)"
    and "skip_char CHR '']'' (skip_ws (skip_char q r1)) = r2"
  shows "parse_loop (CHR ''['' # cs) = Str buf # parse_loop r2"
  using assms by (auto simp: Let_def)

lemma parse_loop_ident:
  assumes "isIdentStart ch" and "takeWhile isIdentChar (ch # cs) = name"
    and "dropWhile isIdentChar (ch # cs) = r"
  shows "parse_loop (ch # cs) = Str name # parse_loop r"
  using assms identStart_not_special [of ch] by (simp del: takeWhile.simps dropWhile.simps)

lemma parse_num_segment:
  "parse_loop (''['' @ dec_digits n @ '']'' @ rest) = Num n # parse_loop rest"
proof -
  obtain d ds where ds: "dec_digits n = d # ds"
    using dec_digits_digits [of n] by (cases "dec_digits n") auto
  have all: "list_all isDigit (d # ds)"
    using dec_digits_digits [of n] ds by simp
  then have d: "isDigit d" by simp
  define cs where "cs = (d # ds) @ CHR '']'' # rest"
  have ws: "skip_ws cs = cs"
    using d digit_not_special [of d] by (simp add: skip_ws_def cs_def)
  have hd: "cs = [] \<or> (hd cs \<noteq> dquote \<and> hd cs \<noteq> squote)"
    using d digit_not_special [of d] by (simp add: cs_def)
  have tw: "takeWhile isDigit cs = d # ds"
    unfolding cs_def using all close_bracket_facts
    by (subst takeWhile_append2) (auto simp: list_all_iff)
  have dw: "dropWhile isDigit cs = CHR '']'' # rest"
    unfolding cs_def using all close_bracket_facts
    by (subst dropWhile_append2) (auto simp: list_all_iff)
  have "skip_char CHR '']'' (skip_ws (CHR '']'' # rest)) = rest"
    using close_bracket_facts by (simp add: skip_ws_def skip_char_def)
  then have r2: "skip_char CHR '']'' (skip_ws (dropWhile isDigit cs)) = rest"
    unfolding dw .
  have "parse_loop (CHR ''['' # cs) = Num (parseInt (d # ds)) # parse_loop rest"
    by (rule parse_loop_number [OF ws hd tw _ r2]) simp
  then show ?thesis
    using parseInt_dec_digits [of n] ds by (simp add: cs_def)
qed

lemma json_escape_cases:
  assumes "32 \<le> (of_char c :: nat)"
  shows "json_escape c = (if c = dquote \<or> c = backslash then [backslash, c] else [c])"
proof -
  have "c \<noteq> CHR 0x08" "c \<noteq> CHR 0x09" "c \<noteq> CHR 0x0A" "c \<noteq> CHR 0x0C" "c \<noteq> CHR 0x0D"
    using assms by auto
  then show ?thesis
    using assms by (simp add: json_escape_def)
qed

lemma scan_quoted_escaped:
  "list_all (\<lambda>c. 32 \<le> (of_char c :: nat)) ks \<Longrightarrow>
   scan_quoted dquote (concat (map json_escape ks) @ dquote # rest) = (ks, dquote # rest)"
proof (induction ks)
  case Nil
  show ?case by (cases rest) simp_all
next
  case (Cons c ks)
  then have c: "32 \<le> (of_char c :: nat)" and
    IH: "scan_quoted dquote (concat (map json_escape ks) @ dquote # rest) = (ks, dquote # rest)"
    by simp_all
  obtain d ds where tail: "concat (map json_escape ks) @ dquote # rest = d # ds"
    by (cases "concat (map json_escape ks) @ dquote # rest") auto
  have neq: "backslash \<noteq> dquote"
    by (simp add: backslash_def dquote_def)
  show ?case
  proof (cases "c = dquote \<or> c = backslash")
    case True
    then have "json_escape c = [backslash, c]"
      using json_escape_cases [OF c] by simp
    then show ?thesis
      using IH neq by simp
  next
    case False
    then have "json_escape c = [c]"
      using json_escape_cases [OF c] by simp
    then show ?thesis
      using IH False tail by simp
  qed
qed

lemma parse_quoted_segment:
  assumes "list_all (\<lambda>c. 32 \<le> (of_char c :: nat)) ks"
  shows "parse_loop (''['' @ json_stringify ks @ '']'' @ rest) = Str ks # parse_loop rest"
proof -
  let ?body = "concat (map json_escape ks) @ dquote # CHR '']'' # rest"
  have ws: "skip_ws (dquote # ?body) = dquote # ?body"
    using close_bracket_facts by (simp add: skip_ws_def)
  have sc: "scan_quoted dquote ?body = (ks, dquote # CHR '']'' # rest)"
    by (rule scan_quoted_escaped [OF assms])
  have r2: "skip_char CHR '']'' (skip_ws (skip_char dquote (dquote # CHR '']'' # rest))) = rest"
    using close_bracket_facts by (simp add: skip_ws_def skip_char_def)
  have "parse_loop (CHR ''['' # dquote # ?body) = Str ks # parse_loop rest"
    by (rule parse_loop_quoted [OF ws _ sc r2]) simp
  then show ?thesis
    by (simp add: json_stringify_def)
qed

lemma parse_ident_segment:
  assumes "is_ident ks" and "boundary rest"
  shows "parse_loop (ks @ rest) = Str ks # parse_loop rest"
proof -
  obtain c cs where ks: "ks = c # cs" and c: "isIdentStart c" and cs: "list_all isIdentChar cs"
    using assms(1) by (cases ks) (auto simp: is_ident_def)
  have all: "\<forall>x \<in> set (c # cs). isIdentChar x"
    using c cs identStart_not_special [of c] by (auto simp: list_all_iff)
  have tw: "takeWhile isIdentChar (c # cs @ rest) = c # cs"
    using all boundary_takeWhile [OF assms(2)] takeWhile_append2 [of "c # cs" isIdentChar rest]
    by simp
  have dw: "dropWhile isIdentChar (c # cs @ rest) = rest"
    using all boundary_takeWhile [OF assms(2)] dropWhile_append2 [of "c # cs" isIdentChar rest]
    by simp
  show ?thesis
    using parse_loop_ident [OF c tw dw] ks by simp
qed


lemma trim_id:
  assumes "s \<noteq> []" and "\<not> isSpace (hd s)" and "\<not> isSpace (last s)"
  shows "trim s = s"
proof -
  have 1: "dropWhile isSpace s = s"
    using assms(1,2) by (cases s) auto
  have 2: "dropWhile isSpace (rev s) = rev s"
    using assms(1,3) by (cases s rule: rev_cases) auto
  show ?thesis
    by (simp add: trim_def 1 2)
qed

lemma key_segment_parse:
  assumes "plain_key k" and "boundary rest"
  shows "parse_loop (key_segment s k @ rest) = k # parse_loop rest"
proof (cases k)
  case (Num n)
  then show ?thesis
    using parse_num_segment [of n rest] by simp
next
  case (Str ks)
  show ?thesis
  proof (cases "is_ident ks")
    case True
    have "parse_loop (CHR ''.'' # ks @ rest) = parse_loop (ks @ rest)"
      by simp
    then show ?thesis
      using True Str assms parse_ident_segment [of ks rest] by simp
  next
    case False
    then show ?thesis
      using Str assms(1) parse_quoted_segment [of ks rest] by simp
  qed
qed

lemma ident_last: "is_ident ks \<Longrightarrow> ks \<noteq> [] \<and> isIdentStart (hd ks) \<and> isIdentChar (last ks)"
  using identStart_not_special [of "hd ks"]
  by (cases ks) (auto simp: is_ident_def list_all_iff)

lemma key_segment_shape:
  "key_segment s k \<noteq> [] \<and> \<not> isSpace (hd (key_segment s k)) \<and>
   \<not> isSpace (last (key_segment s k)) \<and> (s \<noteq> [] \<longrightarrow> boundary (key_segment s k @ t))"
proof (cases k)
  case (Num n)
  then show ?thesis
    using close_bracket_facts by (simp add: boundary_def)
next
  case (Str ks)
  show ?thesis
  proof (cases "is_ident ks")
    case True
    then show ?thesis
      using Str ident_last [of ks] identStart_not_special [of "hd ks"]
        identChar_not_space [of "last ks"]
      by (auto simp: boundary_def isSpace_def)
  next
    case False
    then show ?thesis
      using Str close_bracket_facts by (simp add: boundary_def)
  qed
qed

lemma pathToString_from_parse:
  "list_all plain_key ks \<Longrightarrow> s \<noteq> [] \<Longrightarrow>
   \<exists>t. pathToString_from s ks = s @ t \<and> boundary t \<and> parse_loop t = ks \<and>
       (t = [] \<or> \<not> isSpace (last t))"
proof (induction ks arbitrary: s)
  case Nil
  then show ?case by (simp add: boundary_def)
next
  case (Cons k ks)
  let ?seg = "key_segment s k"
  have seg: "?seg \<noteq> []" "\<not> isSpace (last ?seg)"
    using key_segment_shape [of s k] by simp_all
  have "list_all plain_key ks" and "s @ ?seg \<noteq> []"
    using Cons.prems by simp_all
  from Cons.IH [OF this] obtain t where t: "pathToString_from (s @ ?seg) ks = (s @ ?seg) @ t"
    "boundary t" "parse_loop t = ks" "t = [] \<or> \<not> isSpace (last t)"
    by blast
  have "boundary (?seg @ t)"
    using key_segment_shape [of s k t] Cons.prems(2) by simp
  moreover have "parse_loop (?seg @ t) = k # ks"
    using key_segment_parse [of k t s] Cons.prems(1) t(2,3) by simp
  moreover have "\<not> isSpace (last (?seg @ t))"
    using seg t(4) by (cases "t = []") simp_all
  moreover have "pathToString_from s (k # ks) = s @ (?seg @ t)"
    using t(1) by simp
  moreover have "?seg @ t \<noteq> []"
    using seg(1) by simp
  ultimately show ?case
    by blast
qed

lemma parsePath_pathToString:
  assumes "list_all plain_key ks"
  shows "parsePath (pathToString ks) = ks"
proof (cases ks)
  case Nil
  then show ?thesis by (simp add: parsePath_def pathToString_def trim_def)
next
  case (Cons k ks')
  let ?seg = "key_segment [] k"
  have seg: "?seg \<noteq> []" "\<not> isSpace (hd ?seg)" "\<not> isSpace (last ?seg)"
    using key_segment_shape [of "[]" k] by simp_all
  obtain t where t: "pathToString_from ?seg ks' = ?seg @ t"
    "boundary t" "parse_loop t = ks'" "t = [] \<or> \<not> isSpace (last t)"
    using pathToString_from_parse [of ks' ?seg] assms Cons seg(1) by auto
  have "\<not> isSpace (last (?seg @ t))"
    using seg(1,3) t(4) by (cases "t = []") simp_all
  then have "trim (?seg @ t) = ?seg @ t"
    using seg by (intro trim_id) auto
  moreover have "parse_loop (?seg @ t) = k # ks'"
    using key_segment_parse [of k t "[]"] assms Cons t(2,3) by simp
  ultimately show ?thesis
    using Cons t(1) by (simp add: parsePath_def pathToString_def)
qed


lemma parse_quoted_007:
  "parsePath (''a['' @ dquote # ''007'' @ dquote # '']'') = [Str ''a'', Str ''007'']"
  by code_simp

lemma canonical_007: "pathToString [Str ''a'', Str ''007''] = ''a[007]''"
  by code_simp

lemma parse_canonical_007: "parsePath ''a[007]'' = [Str ''a'', Num 7]"
  by code_simp

lemma canonical_7: "pathToString [Str ''a'', Num 7] = ''a[7]''"
  by code_simp

text \<open>
  C3, as stated: for every \<open>s\<close>, \<open>parse (toCanonical (parse s)) = parse s\<close>, and re-parsing
  and re-stringifying a canonical string gives the same string. It fails for the
  bracket-quoted key \<open>"007"\<close>: its canonical form is \<open>a[007]\<close>, which parses to the
  number 7, whose canonical form is \<open>a[7]\<close>.
\<close>

theorem C3_roundtrip_counterexample:
  "parsePath (pathToString (parsePath (''a['' @ dquote # ''007'' @ dquote # '']''))) \<noteq>
     parsePath (''a['' @ dquote # ''007'' @ dquote # '']'') \<and>
   pathToString (parsePath (pathToString [Str ''a'', Str ''007''])) \<noteq>
     pathToString [Str ''a'', Str ''007'']"
  unfolding parse_quoted_007 canonical_007 parse_canonical_007 canonical_7 by simp

text \<open>
  C3, amended: for every \<open>s\<close> whose keys are numeric indices or strings that are neither
  all digits nor hold a control character, \<open>parse (toCanonical (parse s)) = parse s\<close>, and
  the canonical string of \<open>parse s\<close> is reproduced by re-parsing and re-stringifying it.
\<close>

theorem C3_roundtrip_plain_keys:
  "list_all plain_key (parsePath s) \<Longrightarrow>
   parsePath (pathToString (parsePath s)) = parsePath s \<and>
   pathToString (parsePath (pathToString (parsePath s))) = pathToString (parsePath s)"
  by (simp add: parsePath_pathToString)

lemma parse_weird_key:
  "parsePath (''a.b[0]['' @ dquote # ''weird key'' @ dquote # ''].c'') =
     [Str ''a'', Str ''b'', Num 0, Str ''weird key'', Str ''c'']"
  by code_simp

lemma canonical_weird_key:
  "pathToString [Str ''a'', Str ''b'', Num 0, Str ''weird key'', Str ''c''] =
     ''a.b[0]['' @ dquote # ''weird key'' @ dquote # ''].c''"
  by code_simp

theorem C3_roundtrip_plain_keys_witness:
  "list_all plain_key (parsePath (''a.b[0]['' @ dquote # ''weird key'' @ dquote # ''].c'')) \<and>
   parsePath (pathToString (parsePath (''a.b[0]['' @ dquote # ''weird key'' @ dquote # ''].c''))) =
     [Str ''a'', Str ''b'', Num 0, Str ''weird key'', Str ''c''] \<and>
   pathToString (parsePath (pathToString (parsePath
       (''a.b[0]['' @ dquote # ''weird key'' @ dquote # ''].c'')))) =
     ''a.b[0]['' @ dquote # ''weird key'' @ dquote # ''].c''"
proof -
  have h: "list_all plain_key (parsePath (''a.b[0]['' @ dquote # ''weird key'' @ dquote # ''].c''))"
    unfolding parse_weird_key by (simp add: all_digits_def isDigit_def)
  show ?thesis
    using h C3_roundtrip_plain_keys [OF h]
    unfolding parse_weird_key canonical_weird_key by simp
qed


section \<open>Select model rendering\<close>

text \<open>
  Primitive JavaScript values. Numbers are integers here; \<open>NaN\<close> is kept apart because
  it is not \<open>===\<close> to itself.
\<close>

datatype prim = PUndefined | PNull | PBool bool | PNum int | PNaN | PStr string

text \<open>\<open>String(v)\<close> on a primitive.\<close>

fun to_string :: "prim \<Rightarrow> string" where
  "to_string PUndefined = ''undefined''"
| "to_string PNull = ''null''"
| "to_string (PBool b) = (if b then ''true'' else ''false'')"
| "to_string (PNum i) = (if i < 0 then ''-'' @ dec_digits (nat (- i)) else dec_digits (nat i))"
| "to_string PNaN = ''NaN''"
| "to_string (PStr s) = s"

text \<open>An entry of \<open>model.options\<close>: an array (of primitives) or something else.\<close>

datatype entry = EArray "prim list" | ENotArray prim

record select_model =
  selectedValue :: prim
  options :: "entry list"

text \<open>The \<open>select\<close> element: its \<open>option\<close> children and \<open>selectedIndex\<close> (\<open>-1\<close>: none).
  The \<open>value\<close> setter selects the first option that carries the value, whether disabled
  or not, and no option when none carries it; the getter gives the selected option's value
  or the empty string (HTML standard, the \<open>select\<close> element).\<close>

record option_el =
  opt_value :: string
  opt_text :: string
  opt_disabled :: bool

record select_el =
  sel_options :: "option_el list"
  selectedIndex :: int

fun first_index :: "('a \<Rightarrow> bool) \<Rightarrow> 'a list \<Rightarrow> nat option" where
  "first_index P [] = None"
| "first_index P (x # xs) =
     (if P x then Some 0 else map_option Suc (first_index P xs))"

definition set_value :: "string \<Rightarrow> select_el \<Rightarrow> select_el" where
  "set_value v sel =
     sel\<lparr>selectedIndex :=
       (case first_index (\<lambda>x. opt_value x = v) (sel_options sel) of
          None \<Rightarrow> - 1 | Some i \<Rightarrow> int i)\<rparr>"

definition get_value :: "select_el \<Rightarrow> string" where
  "get_value sel =
     (if 0 \<le> selectedIndex sel \<and> nat (selectedIndex sel) < length (sel_options sel)
      then opt_value (sel_options sel ! nat (selectedIndex sel)) else [])"

datatype diag = Warn string

text \<open>The loop over \<open>opts\<close> in \<open>_rebuildSelectFromModel\<close>: the options appended and the
  warnings logged. \<open>debug\<close> is \<open>options.debug\<close>.\<close>

fun build_options :: "bool \<Rightarrow> entry list \<Rightarrow> option_el list \<times> diag list" where
  "build_options debug [] = ([], [])"
| "build_options debug (ENotArray v # opts) =
     (case build_options debug opts of (os, ds) \<Rightarrow>
        (os, (if debug then [Warn ''ezBind <select>: invalid option tuple''] else []) @ ds))"
| "build_options debug (EArray xs # opts) =
     (case build_options debug opts of (os, ds) \<Rightarrow>
        (if length xs < 2
         then (os, (if debug then [Warn ''ezBind <select>: invalid option tuple''] else []) @ ds)
         else (\<lparr>opt_value = to_string (xs ! 0), opt_text = to_string (xs ! 0),
                 opt_disabled = \<not> (xs ! 1 = PBool True)\<rparr> # os, ds)))"

text \<open>\<open>(model.selectedValue == null) ? "" : String(model.selectedValue)\<close>.\<close>

definition requested :: "select_model \<Rightarrow> string" where
  "requested model =
     (if selectedValue model = PUndefined \<or> selectedValue model = PNull then []
      else to_string (selectedValue model))"

definition invalid_selected :: diag where
  "invalid_selected = Warn ''ezBind <select>: selectedValue invalid or disabled''"

definition rebuildSelectFromModel ::
  "bool \<Rightarrow> select_el \<Rightarrow> select_model \<Rightarrow> select_el \<times> diag list" where
  "rebuildSelectFromModel debug sel model =
     (let selected = requested model;
          (os, ds) = build_options debug (options model);
          sel1 = set_value selected (sel\<lparr>sel_options := os\<rparr>)
      in if selected \<noteq> [] \<and> get_value sel1 \<noteq> selected
         then (sel1\<lparr>selectedIndex := - 1\<rparr>, ds @ (if debug then [invalid_selected] else []))
         else (sel1, ds))"

text \<open>The entries that become options, and the option each becomes.\<close>

fun valid_tuple :: "entry \<Rightarrow> bool" where
  "valid_tuple (EArray xs) = (2 \<le> length xs)"
| "valid_tuple (ENotArray v) = False"

fun option_of :: "entry \<Rightarrow> option_el" where
  "option_of (EArray xs) =
     \<lparr>opt_value = to_string (xs ! 0), opt_text = to_string (xs ! 0),
      opt_disabled = (xs ! 1 \<noteq> PBool True)\<rparr>"
| "option_of (ENotArray v) = \<lparr>opt_value = [], opt_text = [], opt_disabled = True\<rparr>"

text \<open>The model of the specification's example, and an empty \<open>select\<close>.\<close>

definition abc_model :: "string \<Rightarrow> select_model" where
  "abc_model v =
     \<lparr>selectedValue = PStr v,
      options = [EArray [PStr ''a'', PBool True], EArray [PStr ''b'', PBool True],
                 EArray [PStr ''c'', PBool False]]\<rparr>"

definition abc_options :: "option_el list" where
  "abc_options =
     [\<lparr>opt_value = ''a'', opt_text = ''a'', opt_disabled = False\<rparr>,
      \<lparr>opt_value = ''b'', opt_text = ''b'', opt_disabled = False\<rparr>,
      \<lparr>opt_value = ''c'', opt_text = ''c'', opt_disabled = True\<rparr>]"

definition empty_select :: select_el where
  "empty_select = \<lparr>sel_options = [], selectedIndex = - 1\<rparr>"

lemma build_options_fst:
  "fst (build_options debug opts) = map option_of (filter valid_tuple opts)"
proof (induction opts)
  case Nil
  show ?case by simp
next
  case (Cons e opts)
  then show ?case
    by (cases e) (auto split: prod.splits)
qed

lemma build_options_snd:
  "invalid_selected \<notin> set (snd (build_options debug opts))"
proof (induction opts)
  case Nil
  show ?case by simp
next
  case (Cons e opts)
  then show ?case
    by (cases e) (auto simp: invalid_selected_def split: prod.splits)
qed

lemma first_index_None: "(first_index P xs = None) = (\<forall>x \<in> set xs. \<not> P x)"
  by (induction xs) auto

lemma first_index_Some:
  "first_index P xs = Some i \<Longrightarrow> i < length xs \<and> P (xs ! i) \<and> (\<forall>j < i. \<not> P (xs ! j))"
proof (induction xs arbitrary: i)
  case Nil
  then show ?case by simp
next
  case (Cons x xs)
  show ?case
  proof (cases "P x")
    case True
    then show ?thesis using Cons.prems by simp
  next
    case False
    then obtain k where k: "first_index P xs = Some k" "i = Suc k"
      using Cons.prems by auto
    from Cons.IH [OF k(1)] have "k < length xs \<and> P (xs ! k) \<and> (\<forall>j < k. \<not> P (xs ! j))" .
    then show ?thesis
      using False k(2) by (auto simp: nth_Cons split: nat.splits)
  qed
qed

lemma get_set_value_absent:
  "first_index (\<lambda>x. opt_value x = v) (sel_options sel) = None \<Longrightarrow>
   get_value (set_value v sel) = []"
  by (simp add: get_value_def set_value_def)

lemma get_set_value_present:
  "first_index (\<lambda>x. opt_value x = v) (sel_options sel) = Some i \<Longrightarrow>
   get_value (set_value v sel) = v \<and> selectedIndex (set_value v sel) = int i"
  using first_index_Some [of "\<lambda>x. opt_value x = v" "sel_options sel" i]
  by (simp add: get_value_def set_value_def)

lemma rebuild_unfold:
  "rebuildSelectFromModel debug sel model =
     (let os = map option_of (filter valid_tuple (options model));
          ds = snd (build_options debug (options model));
          sel1 = set_value (requested model) (sel\<lparr>sel_options := os\<rparr>)
      in if requested model \<noteq> [] \<and> get_value sel1 \<noteq> requested model
         then (sel1\<lparr>selectedIndex := - 1\<rparr>, ds @ (if debug then [invalid_selected] else []))
         else (sel1, ds))"
proof -
  obtain os ds where b: "build_options debug (options model) = (os, ds)"
    by (cases "build_options debug (options model)")
  then have os: "os = map option_of (filter valid_tuple (options model))"
    using build_options_fst [of debug "options model"] by simp
  show ?thesis
    unfolding rebuildSelectFromModel_def
    by (simp add: b os [symmetric] Let_def)
qed

lemma rebuild_absent_quiet:
  "rebuildSelectFromModel False empty_select (abc_model ''d'') =
     (\<lparr>sel_options = abc_options, selectedIndex = - 1\<rparr>, [])"
  by (simp add: rebuildSelectFromModel_def requested_def abc_model_def abc_options_def
      empty_select_def set_value_def get_value_def Let_def)

lemma rebuild_absent_debug:
  "rebuildSelectFromModel True empty_select (abc_model ''d'') =
     (\<lparr>sel_options = abc_options, selectedIndex = - 1\<rparr>, [invalid_selected])"
  by (simp add: rebuildSelectFromModel_def requested_def abc_model_def abc_options_def
      empty_select_def set_value_def get_value_def Let_def)

lemma rebuild_selected_b:
  "rebuildSelectFromModel True empty_select (abc_model ''b'') =
     (\<lparr>sel_options = abc_options, selectedIndex = 1\<rparr>, [])"
  by (simp add: rebuildSelectFromModel_def requested_def abc_model_def abc_options_def
      empty_select_def set_value_def get_value_def Let_def)

text \<open>
  C8, as stated: whenever the requested selectedValue is absent from the options, the
  selection is cleared and a diagnostic is emitted. With \<open>options.debug\<close> off (the module's
  default) the selection is cleared and nothing is logged.
\<close>

theorem C8_select_counterexample:
  "selectedIndex (fst (rebuildSelectFromModel False empty_select (abc_model ''d''))) = - 1 \<and>
   snd (rebuildSelectFromModel False empty_select (abc_model ''d'')) = []"
  by (simp add: rebuild_absent_quiet)

text \<open>
  C8, amended: rebuilding a \<open>select\<close> from a model regenerates its options from the
  well-formed tuples of \<open>options\<close> (arrays of at least two entries, in order; other entries are
  skipped), each disabled when its second entry is not \<open>true\<close>. When the requested value is
  not empty and no option carries it, \<open>selectedIndex\<close> is set to \<open>-1\<close> and the diagnostic is
  logged exactly when \<open>options.debug\<close> is on. When the first option that carries the
  requested value is enabled, that option is selected and no such diagnostic is logged.
\<close>

theorem C8_select_rebuild:
  assumes "rebuildSelectFromModel debug sel model = (sel', ds)"
  shows "sel_options sel' = map option_of (filter valid_tuple (options model)) \<and>
    (requested model \<noteq> [] \<and> requested model \<notin> opt_value ` set (sel_options sel') \<longrightarrow>
       selectedIndex sel' = - 1 \<and> (invalid_selected \<in> set ds) = debug) \<and>
    (\<forall>i. first_index (\<lambda>x. opt_value x = requested model) (sel_options sel') = Some i \<and>
         \<not> opt_disabled (sel_options sel' ! i) \<longrightarrow>
       selectedIndex sel' = int i \<and> get_value sel' = requested model \<and>
       invalid_selected \<notin> set ds)"
proof -
  let ?os = "map option_of (filter valid_tuple (options model))"
  let ?v = "requested model"
  let ?sel1 = "set_value ?v (sel\<lparr>sel_options := ?os\<rparr>)"
  have so: "sel_options ?sel1 = ?os"
    by (simp add: set_value_def)
  have opts: "sel_options sel' = ?os"
    using assms so unfolding rebuild_unfold Let_def by (auto split: if_splits)
  have absent: "selectedIndex sel' = - 1 \<and> (invalid_selected \<in> set ds) = debug"
    if "?v \<noteq> []" and "?v \<notin> opt_value ` set ?os"
  proof -
    have "first_index (\<lambda>x. opt_value x = ?v) ?os = None"
      using that(2) unfolding first_index_None by force
    then have "get_value ?sel1 = []"
      by (intro get_set_value_absent) simp
    then show ?thesis
      using assms that(1) build_options_snd [of debug "options model"]
      unfolding rebuild_unfold Let_def by auto
  qed
  have present: "selectedIndex sel' = int i \<and> get_value sel' = ?v \<and> invalid_selected \<notin> set ds"
    if "first_index (\<lambda>x. opt_value x = ?v) ?os = Some i" for i
  proof -
    have "get_value ?sel1 = ?v \<and> selectedIndex ?sel1 = int i"
      using that by (intro get_set_value_present) simp
    then show ?thesis
      using assms build_options_snd [of debug "options model"]
      unfolding rebuild_unfold Let_def by auto
  qed
  show ?thesis
    using opts absent present by auto
qed


theorem C8_select_rebuild_witness:
  "rebuildSelectFromModel True empty_select (abc_model ''d'') =
     (\<lparr>sel_options = abc_options, selectedIndex = - 1\<rparr>, [invalid_selected]) \<and>
   abc_options = map option_of (filter valid_tuple (options (abc_model ''d''))) \<and>
   requested (abc_model ''d'') \<noteq> [] \<and>
   requested (abc_model ''d'') \<notin> opt_value ` set abc_options \<and>
   rebuildSelectFromModel True empty_select (abc_model ''b'') =
     (\<lparr>sel_options = abc_options, selectedIndex = 1\<rparr>, []) \<and>
   first_index (\<lambda>x. opt_value x = requested (abc_model ''b'')) abc_options = Some 1 \<and>
   \<not> opt_disabled (abc_options ! 1)"
proof -
  have d: "requested (abc_model ''d'') \<noteq> [] \<and>
      requested (abc_model ''d'') \<notin> opt_value ` set abc_options"
    by (simp add: requested_def abc_model_def abc_options_def)
  have b: "first_index (\<lambda>x. opt_value x = requested (abc_model ''b'')) abc_options = Some 1 \<and>
      \<not> opt_disabled (abc_options ! 1)"
    by (simp add: requested_def abc_model_def abc_options_def)
  show ?thesis
    using C8_select_rebuild [OF rebuild_absent_debug] C8_select_rebuild [OF rebuild_selected_b] d b
    by (simp add: rebuild_absent_debug rebuild_selected_b)
qed



section \<open>The list repeater\<close>

text \<open>
  A DOM node, as far as the repeater goes: its identity and the two attributes
  \<open>ezForChild\<close> and \<open>ezForIndex\<close> that \<open>_renderForRecord\<close> writes on a clone.
\<close>

record node =
  nid :: nat
  forChild :: "string option"
  forIndex :: "nat option"

text \<open>The child nodes of the anchor's parent, in document order, and the identity the
  next created node gets.\<close>

record dom_state =
  children :: "node list"
  next_id :: nat

text \<open>A repeat record: \<open>anchor\<close> and \<open>rendered\<close> hold node identities.\<close>

record for_record =
  dataKey :: string
  anchor :: "nat option"
  rendered :: "nat list"

text \<open>\<open>n.parentNode.removeChild(n)\<close> for every rendered node that has a parent.\<close>

definition clear_rendered :: "for_record \<Rightarrow> node list \<Rightarrow> node list" where
  "clear_rendered rec ns = filter (\<lambda>n. nid n \<notin> set (rendered rec)) ns"

text \<open>\<open>parent.insertBefore(item, anchor.nextSibling)\<close>, the anchor being a child.\<close>

fun insert_after :: "nat \<Rightarrow> node \<Rightarrow> node list \<Rightarrow> node list" where
  "insert_after a item [] = []"
| "insert_after a item (n # ns) =
     (if nid n = a then n # item # ns else n # insert_after a item ns)"

text \<open>The clone for index \<open>i\<close>: \<open>ezForChild = dataKey + "[" + i + "]"\<close>, \<open>ezForIndex = i\<close>.\<close>

definition clone :: "for_record \<Rightarrow> nat \<Rightarrow> nat \<Rightarrow> node" where
  "clone rec i fresh =
     \<lparr>nid = fresh, forChild = Some (dataKey rec @ ''['' @ dec_digits i @ '']''),
      forIndex = Some i\<rparr>"

text \<open>The loop \<open>for (let i = arr.length - 1; i >= 0; i--)\<close>; the first argument is
  \<open>i + 1\<close>. \<open>None\<close> is the TypeError of \<open>rec.anchor.parentNode.insertBefore\<close> when the
  anchor is missing or has no parent.\<close>

fun render_items :: "for_record \<Rightarrow> nat \<Rightarrow> dom_state \<times> nat list \<Rightarrow> (dom_state \<times> nat list) option" where
  "render_items rec 0 st = Some st"
| "render_items rec (Suc i) (d, out) =
     (case anchor rec of
        None \<Rightarrow> None
      | Some a \<Rightarrow>
          if a \<notin> nid ` set (children d) then None
          else render_items rec i
                 (d\<lparr>children := insert_after a (clone rec i (next_id d)) (children d),
                    next_id := Suc (next_id d)\<rparr>,
                  out @ [next_id d]))"

definition for_warning :: diag where
  "for_warning = Warn ''ezFor expected array''"

text \<open>\<open>_renderForRecord\<close>. \<open>arr\<close> is the value at the source path when it is an array.\<close>

definition renderForRecord ::
  "bool \<Rightarrow> 'a list option \<Rightarrow> for_record \<Rightarrow> dom_state \<Rightarrow> (for_record \<times> dom_state \<times> diag list) option" where
  "renderForRecord debug arr rec d =
     (let d1 = d\<lparr>children := clear_rendered rec (children d)\<rparr>;
          rec1 = rec\<lparr>rendered := []\<rparr>
      in case arr of
           None \<Rightarrow> Some (rec1, d1, if debug then [for_warning] else [])
         | Some xs \<Rightarrow>
             (case render_items rec1 (length xs) (d1, []) of
                None \<Rightarrow> None
              | Some (d2, out) \<Rightarrow> Some (rec1\<lparr>rendered := out\<rparr>, d2, [])))"

lemma insert_after_anchor:
  "a \<notin> nid ` set pre \<Longrightarrow> nid n = a \<Longrightarrow>
   insert_after a item (pre @ n # post) = pre @ n # item # post"
  by (induction pre) auto

lemma render_items_order:
  assumes "anchor rec = Some a" and "a \<notin> nid ` set pre" and "nid n = a"
  shows "render_items rec k (\<lparr>children = pre @ n # post, next_id = m\<rparr>, out) =
     Some (\<lparr>children = pre @ n # map (\<lambda>i. clone rec i (m + (k - 1 - i))) [0..<k] @ post,
            next_id = m + k\<rparr>, out @ [m..<m + k])"
proof (induction k arbitrary: post m out)
  case 0
  show ?case by simp
next
  case (Suc k)
  have ins: "insert_after a (clone rec k m) (pre @ n # post) = pre @ n # clone rec k m # post"
    using assms(2,3) by (rule insert_after_anchor)
  have mem: "a \<in> nid ` set (pre @ n # post)"
    using assms(3) by auto
  have step: "render_items rec (Suc k) (\<lparr>children = pre @ n # post, next_id = m\<rparr>, out) =
      render_items rec k (\<lparr>children = pre @ n # clone rec k m # post, next_id = Suc m\<rparr>, out @ [m])"
    using assms(1) mem ins by simp
  have maps: "map (\<lambda>i. clone rec i (Suc m + (k - 1 - i))) [0..<k] =
      map (\<lambda>i. clone rec i (m + (Suc k - 1 - i))) [0..<k]"
  proof (rule map_cong [OF refl])
    fix i assume "i \<in> set [0..<k]"
    then have "i < k" by simp
    then have "Suc m + (k - 1 - i) = m + (Suc k - 1 - i)" by arith
    then show "clone rec i (Suc m + (k - 1 - i)) = clone rec i (m + (Suc k - 1 - i))"
      by (simp only:)
  qed
  have ids: "(out @ [m]) @ [Suc m..<Suc m + k] = out @ [m..<m + Suc k]"
    by (simp add: upt_conv_Cons)
  show ?case
    unfolding step Suc.IH maps ids by simp
qed


lemma clear_rendered_append:
  "clear_rendered rec (pre @ n # post) =
     clear_rendered rec pre @ (if nid n \<in> set (rendered rec) then [] else [n]) @ clear_rendered rec post"
  by (simp add: clear_rendered_def)

lemma clear_rendered_ids: "nid ` set (clear_rendered rec ns) \<subseteq> nid ` set ns"
  by (auto simp: clear_rendered_def)

lemma clone_cleared: "clone (rec\<lparr>rendered := out\<rparr>) i m = clone rec i m"
  by (simp add: clone_def)

lemma render_array:
  assumes "anchor rec = Some a" and "children d = pre @ n # post" and "nid n = a"
    and "a \<notin> nid ` set pre" and "a \<notin> set (rendered rec)"
  shows "renderForRecord debug (Some xs) rec d =
     Some (rec\<lparr>rendered := [next_id d..<next_id d + length xs]\<rparr>,
           \<lparr>children = clear_rendered rec pre @
              n # map (\<lambda>i. clone rec i (next_id d + (length xs - 1 - i))) [0..<length xs] @
              clear_rendered rec post,
            next_id = next_id d + length xs\<rparr>, [])"
proof -
  let ?rec1 = "rec\<lparr>rendered := []\<rparr>"
  have kids: "clear_rendered rec (children d) = clear_rendered rec pre @ n # clear_rendered rec post"
    using assms(2,3,5) by (simp add: clear_rendered_append)
  have d1: "d\<lparr>children := clear_rendered rec (children d)\<rparr> =
      \<lparr>children = clear_rendered rec pre @ n # clear_rendered rec post, next_id = next_id d\<rparr>"
    using kids by simp
  have a1: "anchor ?rec1 = Some a"
    using assms(1) by simp
  have pre: "a \<notin> nid ` set (clear_rendered rec pre)"
    using assms(4) clear_rendered_ids [of rec pre] by blast
  have loop: "render_items ?rec1 (length xs)
      (\<lparr>children = clear_rendered rec pre @ n # clear_rendered rec post, next_id = next_id d\<rparr>, []) =
     Some (\<lparr>children = clear_rendered rec pre @
              n # map (\<lambda>i. clone rec i (next_id d + (length xs - 1 - i))) [0..<length xs] @
              clear_rendered rec post,
            next_id = next_id d + length xs\<rparr>, [next_id d..<next_id d + length xs])"
    using render_items_order [OF a1 pre assms(3), of "length xs" "clear_rendered rec post" "next_id d" "[]"]
    by (simp add: clone_cleared)
  show ?thesis
    unfolding renderForRecord_def Let_def d1 by (simp add: loop)
qed

text \<open>
  C6: after a rebuild the rendered instances stand right after the anchor in the order of the
  array: the instance at position \<open>k\<close> carries index \<open>k\<close> and the item prefix
  \<open>dataKey[k]\<close>, although the loop runs from the last index down.
\<close>

theorem C6_repeat_order:
  assumes "anchor rec = Some a" and "children d = pre @ n # post" and "nid n = a"
    and "a \<notin> nid ` set pre" and "a \<notin> set (rendered rec)"
  shows "\<exists>rec' d' items.
     renderForRecord debug (Some xs) rec d = Some (rec', d', []) \<and>
     children d' = clear_rendered rec pre @ n # items @ clear_rendered rec post \<and>
     map forIndex items = map Some [0..<length xs] \<and>
     map forChild items =
       map (\<lambda>i. Some (dataKey rec @ ''['' @ dec_digits i @ '']'')) [0..<length xs] \<and>
     rendered rec' = rev (map nid items)"
proof -
  let ?items = "map (\<lambda>i. clone rec i (next_id d + (length xs - 1 - i))) [0..<length xs]"
  have ids: "map nid ?items = rev [next_id d..<next_id d + length xs]"
    by (rule nth_equalityI) (simp_all add: rev_nth clone_def)
  have "map forIndex ?items = map Some [0..<length xs]"
    by (simp add: clone_def comp_def)
  moreover have "map forChild ?items =
      map (\<lambda>i. Some (dataKey rec @ ''['' @ dec_digits i @ '']'')) [0..<length xs]"
    by (simp add: clone_def comp_def)
  ultimately show ?thesis
    using render_array [OF assms, of debug xs] ids by simp
qed


section \<open>The rebuild scheduler\<close>

datatype task = ForTask nat | SelectTask nat

record sel_state =
  connected :: bool
  updating :: bool
  element :: select_el

text \<open>
  The state the scheduler works on. Repeat records and \<open>select\<close> elements are named by
  numbers (the keys of the two WeakMaps are the objects). \<open>arrays r\<close> is what
  \<open>_getAtPath(system.data, rec.pathArr)\<close> gives for record \<open>r\<close> when it is an array, and
  \<open>models el\<close> what \<open>getModelFn()\<close> gives for \<open>el\<close> when it is a select model.
  \<open>microtasks\<close> is the queue of \<open>queueMicrotask\<close>; \<open>rebuilds\<close> logs the rebuilds done.
\<close>

record world =
  pendingForRebuild :: "nat set"
  pendingSelectRebuild :: "nat set"
  microtasks :: "task list"
  recs :: "nat \<Rightarrow> for_record option"
  arrays :: "nat \<Rightarrow> prim list option"
  document :: dom_state
  selects :: "nat \<Rightarrow> sel_state option"
  models :: "nat \<Rightarrow> select_model option"
  debug :: bool
  diags :: "diag list"
  rebuilds :: "task list"

text \<open>\<open>rec.anchor && rec.anchor.parentNode\<close>.\<close>

definition anchor_live :: "world \<Rightarrow> for_record \<Rightarrow> bool" where
  "anchor_live w rec =
     (case anchor rec of None \<Rightarrow> False | Some a \<Rightarrow> a \<in> nid ` set (children (document w)))"

definition scheduleForRebuild :: "nat \<Rightarrow> world \<Rightarrow> world" where
  "scheduleForRebuild r w =
     (case recs w r of
        None \<Rightarrow> w
      | Some rec \<Rightarrow>
          if anchor rec = None then w
          else if r \<in> pendingForRebuild w then w
          else w\<lparr>pendingForRebuild := insert r (pendingForRebuild w),
                 microtasks := microtasks w @ [ForTask r]\<rparr>)"

text \<open>The callback that \<open>_scheduleForRebuild\<close> queues.\<close>

definition for_task :: "nat \<Rightarrow> world \<Rightarrow> world" where
  "for_task r w =
     (let w1 = w\<lparr>pendingForRebuild := pendingForRebuild w - {r}\<rparr>
      in case recs w1 r of
           None \<Rightarrow> w1
         | Some rec \<Rightarrow>
             if \<not> anchor_live w1 rec then w1
             else (case renderForRecord (debug w1) (arrays w1 r) rec (document w1) of
                     None \<Rightarrow> w1
                   | Some (rec', d', ds) \<Rightarrow>
                       w1\<lparr>recs := (recs w1)(r \<mapsto> rec'), document := d',
                          diags := diags w1 @ ds, rebuilds := rebuilds w1 @ [ForTask r]\<rparr>))"

definition scheduleSelectRebuild :: "nat \<Rightarrow> world \<Rightarrow> world" where
  "scheduleSelectRebuild el w =
     (case selects w el of
        None \<Rightarrow> w
      | Some st \<Rightarrow>
          if el \<in> pendingSelectRebuild w then w
          else w\<lparr>pendingSelectRebuild := insert el (pendingSelectRebuild w),
                 microtasks := microtasks w @ [SelectTask el]\<rparr>)"

text \<open>The callback that \<open>_scheduleSelectRebuild\<close> queues.\<close>

definition select_task :: "nat \<Rightarrow> world \<Rightarrow> world" where
  "select_task el w =
     (let w1 = w\<lparr>pendingSelectRebuild := pendingSelectRebuild w - {el}\<rparr>
      in case selects w1 el of
           None \<Rightarrow> w1
         | Some st \<Rightarrow>
             if \<not> connected st then w1
             else (case models w1 el of
                     None \<Rightarrow> w1
                   | Some model \<Rightarrow>
                       if updating st then w1
                       else (case rebuildSelectFromModel (debug w1) (element st) model of
                               (sel', ds) \<Rightarrow>
                                 w1\<lparr>selects := (selects w1)(el \<mapsto> st\<lparr>updating := False, element := sel'\<rparr>),
                                    diags := diags w1 @ ds,
                                    rebuilds := rebuilds w1 @ [SelectTask el]\<rparr>)))"

text \<open>The part of \<open>_notifyFor\<close> for one record: skip a record whose anchor is detached,
  schedule the others.\<close>

definition notify_for_record :: "nat \<Rightarrow> world \<Rightarrow> world" where
  "notify_for_record r w =
     (case recs w r of
        None \<Rightarrow> w
      | Some rec \<Rightarrow> if anchor_live w rec then scheduleForRebuild r w else w)"

text \<open>What happens in one synchronous turn: a write to the source array of a record
  (followed by the change hook's \<open>_notifyFor\<close>), or a direct request for a rebuild.\<close>

datatype request = Mutate nat "prim list option" | RequestFor nat | RequestSelect nat

fun step :: "request \<Rightarrow> world \<Rightarrow> world" where
  "step (Mutate r arr) w = notify_for_record r (w\<lparr>arrays := (arrays w)(r := arr)\<rparr>)"
| "step (RequestFor r) w = scheduleForRebuild r w"
| "step (RequestSelect el) w = scheduleSelectRebuild el w"

definition turn :: "request list \<Rightarrow> world \<Rightarrow> world" where
  "turn reqs w = fold step reqs w"

fun run_task :: "task \<Rightarrow> world \<Rightarrow> world" where
  "run_task (ForTask r) w = for_task r w"
| "run_task (SelectTask el) w = select_task el w"

text \<open>After the turn the queued callbacks run, in the order they were queued.\<close>

definition drain :: "world \<Rightarrow> world" where
  "drain w = fold run_task (microtasks w) (w\<lparr>microtasks := []\<rparr>)"

text \<open>Every key has at most one callback queued, and has one exactly when it is flagged.\<close>

definition one_pending_per_key :: "world \<Rightarrow> bool" where
  "one_pending_per_key w =
     (distinct (microtasks w) \<and>
      set (microtasks w) = ForTask ` pendingForRebuild w \<union> SelectTask ` pendingSelectRebuild w)"

lemma scheduleForRebuild_pending:
  "r \<in> pendingForRebuild w \<Longrightarrow> scheduleForRebuild r w = w"
  by (simp add: scheduleForRebuild_def split: option.splits)

lemma scheduleSelectRebuild_pending:
  "el \<in> pendingSelectRebuild w \<Longrightarrow> scheduleSelectRebuild el w = w"
  by (simp add: scheduleSelectRebuild_def split: option.splits)

lemma scheduleForRebuild_inv:
  "one_pending_per_key w \<Longrightarrow> one_pending_per_key (scheduleForRebuild r w)"
  by (auto simp: one_pending_per_key_def scheduleForRebuild_def split: option.splits)

lemma scheduleSelectRebuild_inv:
  "one_pending_per_key w \<Longrightarrow> one_pending_per_key (scheduleSelectRebuild el w)"
  by (auto simp: one_pending_per_key_def scheduleSelectRebuild_def split: option.splits)

lemma step_inv: "one_pending_per_key w \<Longrightarrow> one_pending_per_key (step req w)"
proof (cases req)
  case (Mutate r arr)
  assume inv: "one_pending_per_key w"
  then have "one_pending_per_key (w\<lparr>arrays := (arrays w)(r := arr)\<rparr>)"
    by (simp add: one_pending_per_key_def)
  then show ?thesis
    using Mutate scheduleForRebuild_inv [of "w\<lparr>arrays := (arrays w)(r := arr)\<rparr>" r]
    by (simp add: notify_for_record_def split: option.splits)
next
  case (RequestFor r)
  assume "one_pending_per_key w"
  then show ?thesis using RequestFor by (simp add: scheduleForRebuild_inv)
next
  case (RequestSelect el)
  assume "one_pending_per_key w"
  then show ?thesis using RequestSelect by (simp add: scheduleSelectRebuild_inv)
qed

lemma turn_inv: "one_pending_per_key w \<Longrightarrow> one_pending_per_key (turn reqs w)"
  unfolding turn_def by (induction reqs arbitrary: w) (simp_all add: step_inv)

lemma for_task_clears: "r \<notin> pendingForRebuild (for_task r w)"
  by (simp add: for_task_def Let_def split: option.splits prod.splits)

lemma anchor_live_frame:
  "anchor_live (w\<lparr>pendingForRebuild := P\<rparr>) rec = anchor_live w rec"
  "anchor_live (w\<lparr>arrays := A\<rparr>) rec = anchor_live w rec"
  "anchor_live (w\<lparr>microtasks := M\<rparr>) rec = anchor_live w rec"
  by (simp_all add: anchor_live_def split: option.splits)

lemma for_task_detached:
  "recs w r = Some rec \<Longrightarrow> \<not> anchor_live w rec \<Longrightarrow>
   for_task r w = w\<lparr>pendingForRebuild := pendingForRebuild w - {r}\<rparr>"
  by (simp add: for_task_def Let_def anchor_live_frame)


lemma mutate_pending:
  assumes "r \<in> pendingForRebuild w"
  shows "step (Mutate r arr) w = w\<lparr>arrays := (arrays w)(r := arr)\<rparr>"
proof -
  have "r \<in> pendingForRebuild (w\<lparr>arrays := (arrays w)(r := arr)\<rparr>)"
    using assms by simp
  then show ?thesis
    using scheduleForRebuild_pending [of r "w\<lparr>arrays := (arrays w)(r := arr)\<rparr>"]
    by (simp add: notify_for_record_def split: option.splits)
qed

lemma turn_mutations_pending:
  "r \<in> pendingForRebuild w \<Longrightarrow>
   turn (map (Mutate r) ms) w = w\<lparr>arrays := (arrays w)(r := last (arrays w r # ms))\<rparr>"
proof (induction ms arbitrary: w)
  case Nil
  show ?case by (simp add: turn_def)
next
  case (Cons m ms)
  let ?w1 = "w\<lparr>arrays := (arrays w)(r := m)\<rparr>"
  have p: "r \<in> pendingForRebuild ?w1"
    using Cons.prems by simp
  have "turn (map (Mutate r) (m # ms)) w = turn (map (Mutate r) ms) ?w1"
    using mutate_pending [OF Cons.prems, of m] by (simp add: turn_def)
  also have "\<dots> = ?w1\<lparr>arrays := (arrays ?w1)(r := last (arrays ?w1 r # ms))\<rparr>"
    by (rule Cons.IH [OF p])
  also have "\<dots> = w\<lparr>arrays := (arrays w)(r := last (arrays w r # m # ms))\<rparr>"
    by simp
  finally show ?case .
qed

lemma mutate_first:
  assumes "recs w r = Some rec" and "anchor_live w rec" and "r \<notin> pendingForRebuild w"
  shows "step (Mutate r arr) w =
     w\<lparr>pendingForRebuild := insert r (pendingForRebuild w),
        microtasks := microtasks w @ [ForTask r],
        arrays := (arrays w)(r := arr)\<rparr>"
proof -
  obtain a where "anchor rec = Some a"
    using assms(2) by (auto simp: anchor_live_def split: option.splits)
  then show ?thesis
    using assms by (simp add: notify_for_record_def scheduleForRebuild_def anchor_live_frame)
qed

lemma turn_mutations_clean:
  assumes "recs w r = Some rec" and "anchor_live w rec" and "pendingForRebuild w = {}"
    and "microtasks w = []"
  shows "turn (map (Mutate r) (ms @ [m])) w =
     w\<lparr>pendingForRebuild := {r}, microtasks := [ForTask r], arrays := (arrays w)(r := m)\<rparr>"
proof -
  obtain m0 rest where split: "ms @ [m] = m0 # rest"
    by (cases ms) auto
  then have l: "last (m0 # rest) = m"
    by (metis last_snoc)
  let ?w1 = "w\<lparr>pendingForRebuild := {r}, microtasks := [ForTask r],
      arrays := (arrays w)(r := m0)\<rparr>"
  have first: "step (Mutate r m0) w = ?w1"
    using mutate_first [OF assms(1,2), of m0] assms(3,4) by simp
  have p: "r \<in> pendingForRebuild ?w1"
    by simp
  have "turn (map (Mutate r) (m0 # rest)) w = turn (map (Mutate r) rest) ?w1"
    using first by (simp add: turn_def)
  also have "\<dots> = ?w1\<lparr>arrays := (arrays ?w1)(r := last (arrays ?w1 r # rest))\<rparr>"
    by (rule turn_mutations_pending [OF p])
  also have "\<dots> = w\<lparr>pendingForRebuild := {r}, microtasks := [ForTask r],
      arrays := (arrays w)(r := last (m0 # rest))\<rparr>"
    by simp
  finally show ?thesis
    unfolding split l .
qed

lemma drain_single_rebuild:
  assumes "recs w r = Some rec" and "anchor rec = Some a"
    and "children (document w) = pre @ n # post" and "nid n = a"
    and "a \<notin> nid ` set pre" and "a \<notin> set (rendered rec)"
    and "pendingForRebuild w = {r}" and "microtasks w = [ForTask r]" and "arrays w r = Some xs"
  shows "drain w =
     w\<lparr>pendingForRebuild := {}, microtasks := [],
        recs := (recs w)(r \<mapsto> rec\<lparr>rendered := [next_id (document w)..<next_id (document w) + length xs]\<rparr>),
        document :=
          \<lparr>children = clear_rendered rec pre @
             n # map (\<lambda>i. clone rec i (next_id (document w) + (length xs - 1 - i))) [0..<length xs] @
             clear_rendered rec post,
           next_id = next_id (document w) + length xs\<rparr>,
        diags := diags w,
        rebuilds := rebuilds w @ [ForTask r]\<rparr>"
proof -
  let ?w0 = "w\<lparr>microtasks := []\<rparr>"
  let ?w1 = "?w0\<lparr>pendingForRebuild := pendingForRebuild ?w0 - {r}\<rparr>"
  have live: "anchor_live ?w1 rec"
    using assms(2,3,4) by (simp add: anchor_live_def)
  have render: "renderForRecord (debug ?w1) (arrays ?w1 r) rec (document ?w1) =
      Some (rec\<lparr>rendered := [next_id (document w)..<next_id (document w) + length xs]\<rparr>,
           \<lparr>children = clear_rendered rec pre @
              n # map (\<lambda>i. clone rec i (next_id (document w) + (length xs - 1 - i))) [0..<length xs] @
              clear_rendered rec post,
            next_id = next_id (document w) + length xs\<rparr>, [])"
    using render_array [OF assms(2) _ assms(4,5,6), of "document w" post "debug w" xs] assms(3,9)
    by simp
  have "drain w = for_task r ?w0"
    using assms(8) by (simp add: drain_def)
  also have "\<dots> = ?w1\<lparr>recs := (recs ?w1)(r \<mapsto> rec\<lparr>rendered := [next_id (document w)..<next_id (document w) + length xs]\<rparr>),
        document :=
          \<lparr>children = clear_rendered rec pre @
             n # map (\<lambda>i. clone rec i (next_id (document w) + (length xs - 1 - i))) [0..<length xs] @
             clear_rendered rec post,
           next_id = next_id (document w) + length xs\<rparr>,
        diags := diags ?w1 @ [],
        rebuilds := rebuilds ?w1 @ [ForTask r]\<rparr>"
    unfolding for_task_def Let_def using assms(1) live render by simp
  finally show ?thesis
    using assms(7) by simp
qed


definition anchor_node :: node where
  "anchor_node = \<lparr>nid = 0, forChild = None, forIndex = None\<rparr>"

definition items_rec :: for_record where
  "items_rec = \<lparr>dataKey = ''items'', anchor = Some 0, rendered = []\<rparr>"

definition items_dom :: dom_state where
  "items_dom = \<lparr>children = [anchor_node], next_id = 1\<rparr>"

definition items_world :: world where
  "items_world =
     \<lparr>pendingForRebuild = {}, pendingSelectRebuild = {}, microtasks = [],
      recs = [0 \<mapsto> items_rec], arrays = (\<lambda>r. None), document = items_dom,
      selects = (\<lambda>el. None), models = (\<lambda>el. None), debug = False, diags = [], rebuilds = []\<rparr>"

theorem C6_repeat_order_witness:
  "anchor items_rec = Some 0 \<and> children items_dom = [] @ anchor_node # [] \<and>
   nid anchor_node = 0 \<and> 0 \<notin> nid ` set [] \<and> 0 \<notin> set (rendered items_rec) \<and>
   (\<exists>rec' d'. renderForRecord False (Some [PStr ''x'', PStr ''y'', PStr ''z'']) items_rec items_dom =
       Some (rec', d', []) \<and>
     map forIndex (children d') = [None, Some 0, Some 1, Some 2] \<and>
     map forChild (children d') = [None, Some ''items[0]'', Some ''items[1]'', Some ''items[2]''])"
proof -
  have h: "anchor items_rec = Some 0" "children items_dom = [] @ anchor_node # []"
    "nid anchor_node = 0" "0 \<notin> nid ` set []" "0 \<notin> set (rendered items_rec)"
    by (simp_all add: items_rec_def items_dom_def anchor_node_def)
  have digits: "dec_digits 0 = ''0''" "dec_digits (Suc 0) = ''1''"
    "dec_digits (Suc (Suc 0)) = ''2''"
    by (simp_all add: digit_char_def)
  from C6_repeat_order [OF h, of False "[PStr ''x'', PStr ''y'', PStr ''z'']"]
  obtain rec' d' items where r:
    "renderForRecord False (Some [PStr ''x'', PStr ''y'', PStr ''z'']) items_rec items_dom =
       Some (rec', d', [])"
    "children d' = clear_rendered items_rec [] @ anchor_node # items @ clear_rendered items_rec []"
    "map forIndex items = map Some [0..<length [PStr ''x'', PStr ''y'', PStr ''z'']]"
    "map forChild items =
       map (\<lambda>i. Some (dataKey items_rec @ ''['' @ dec_digits i @ '']''))
         [0..<length [PStr ''x'', PStr ''y'', PStr ''z'']]"
    by blast
  have f1: "map forIndex (children d') = [None, Some 0, Some 1, Some 2]"
    using r(2,3) by (simp add: clear_rendered_def anchor_node_def)
  have f2: "map forChild (children d') =
      [None, Some ''items[0]'', Some ''items[1]'', Some ''items[2]'']"
    using r(2,4) digits by (simp add: clear_rendered_def anchor_node_def items_rec_def)
  have ex: "\<exists>rec' d'.
      renderForRecord False (Some [PStr ''x'', PStr ''y'', PStr ''z'']) items_rec items_dom =
        Some (rec', d', []) \<and>
      map forIndex (children d') = [None, Some 0, Some 1, Some 2] \<and>
      map forChild (children d') = [None, Some ''items[0]'', Some ''items[1]'', Some ''items[2]'']"
    using r(1) f1 f2 by (intro exI conjI)
  show ?thesis
    using h ex by simp
qed

lemma select_task_clears: "el \<notin> pendingSelectRebuild (select_task el w)"
  by (simp add: select_task_def Let_def split: option.splits prod.splits)

lemma select_task_detached:
  "selects w el = Some s \<Longrightarrow> \<not> connected s \<Longrightarrow>
   select_task el w = w\<lparr>pendingSelectRebuild := pendingSelectRebuild w - {el}\<rparr>"
  by (simp add: select_task_def Let_def)

lemma turn_requests_pending:
  "el \<in> pendingSelectRebuild w \<Longrightarrow> turn (replicate m (RequestSelect el)) w = w"
  by (induction m) (simp_all add: turn_def scheduleSelectRebuild_pending)

lemma turn_requests_clean:
  assumes "selects w el = Some s" and "el \<notin> pendingSelectRebuild w"
  shows "turn (replicate (Suc m) (RequestSelect el)) w =
     w\<lparr>pendingSelectRebuild := insert el (pendingSelectRebuild w),
        microtasks := microtasks w @ [SelectTask el]\<rparr>"
proof -
  let ?w1 = "w\<lparr>pendingSelectRebuild := insert el (pendingSelectRebuild w),
      microtasks := microtasks w @ [SelectTask el]\<rparr>"
  have first: "step (RequestSelect el) w = ?w1"
    using assms by (simp add: scheduleSelectRebuild_def)
  have "turn (replicate (Suc m) (RequestSelect el)) w = turn (replicate m (RequestSelect el)) ?w1"
    using first by (simp add: turn_def)
  also have "\<dots> = ?w1"
    by (rule turn_requests_pending) simp
  finally show ?thesis .
qed

lemma drain_single_select:
  assumes "selects w el = Some s" and "connected s" and "\<not> updating s"
    and "models w el = Some model"
    and "pendingSelectRebuild w = {el}" and "microtasks w = [SelectTask el]"
  shows "drain w =
     w\<lparr>pendingSelectRebuild := {}, microtasks := [],
        selects := (selects w)(el \<mapsto>
          s\<lparr>updating := False,
            element := fst (rebuildSelectFromModel (debug w) (element s) model)\<rparr>),
        diags := diags w @ snd (rebuildSelectFromModel (debug w) (element s) model),
        rebuilds := rebuilds w @ [SelectTask el]\<rparr>"
proof -
  have "drain w = select_task el (w\<lparr>microtasks := []\<rparr>)"
    using assms(6) by (simp add: drain_def)
  then show ?thesis
    using assms(1,2,3,4,5) by (simp add: select_task_def Let_def split: prod.splits)
qed

text \<open>The world of the list \<open>items\<close>, with a connected \<open>select\<close> element bound to the model of
  the example.\<close>

definition demo_world :: world where
  "demo_world =
     items_world
       \<lparr>selects := [0 \<mapsto> \<lparr>connected = True, updating = False, element = empty_select\<rparr>],
        models := [0 \<mapsto> abc_model ''b'']\<rparr>"

text \<open>
  C7: within one synchronous turn every key (repeat record or \<open>select\<close> element) has at
  most one rebuild queued, and a request for a key that is already flagged changes nothing.
  The queued callback of a repeat record clears the flag, and does nothing else when the
  anchor is detached; the queued callback of a \<open>select\<close> element clears the flag, and does
  nothing else when the element is not connected. Any number of synchronous writes to the
  source array of a repeat record whose anchor is attached queue one callback, and running
  it rebuilds the list once, from the array as it is after the last write. Any number of
  synchronous requests for a connected \<open>select\<close> element queue one callback, and running it
  rebuilds the element once from its model.
\<close>

theorem C7_coalesced_rebuild:
  assumes "pendingForRebuild w = {}" and "pendingSelectRebuild w = {}" and "microtasks w = []"
    and "recs w r = Some rec" and "anchor rec = Some a"
    and "children (document w) = pre @ n # post" and "nid n = a"
    and "a \<notin> nid ` set pre" and "a \<notin> set (rendered rec)"
  shows "one_pending_per_key (turn reqs w) \<and>
    (\<forall>k \<in> pendingForRebuild (turn reqs w). scheduleForRebuild k (turn reqs w) = turn reqs w) \<and>
    (\<forall>el \<in> pendingSelectRebuild (turn reqs w). scheduleSelectRebuild el (turn reqs w) = turn reqs w) \<and>
    k \<notin> pendingForRebuild (for_task k v) \<and>
    (recs v k = Some rec' \<and> \<not> anchor_live v rec' \<longrightarrow>
       for_task k v = v\<lparr>pendingForRebuild := pendingForRebuild v - {k}\<rparr>) \<and>
    microtasks (turn (map (Mutate r) (ms @ [Some xs])) w) = [ForTask r] \<and>
    rebuilds (drain (turn (map (Mutate r) (ms @ [Some xs])) w)) = rebuilds w @ [ForTask r] \<and>
    pendingForRebuild (drain (turn (map (Mutate r) (ms @ [Some xs])) w)) = {} \<and>
    microtasks (drain (turn (map (Mutate r) (ms @ [Some xs])) w)) = [] \<and>
    children (document (drain (turn (map (Mutate r) (ms @ [Some xs])) w))) =
      clear_rendered rec pre @
      n # map (\<lambda>i. clone rec i (next_id (document w) + (length xs - 1 - i))) [0..<length xs] @
      clear_rendered rec post \<and>
    e \<notin> pendingSelectRebuild (select_task e v) \<and>
    (selects v e = Some s \<and> \<not> connected s \<longrightarrow>
       select_task e v = v\<lparr>pendingSelectRebuild := pendingSelectRebuild v - {e}\<rparr>) \<and>
    (selects w e = Some s \<and> connected s \<and> \<not> updating s \<and> models w e = Some model \<longrightarrow>
       microtasks (turn (replicate (Suc m) (RequestSelect e)) w) = [SelectTask e] \<and>
       rebuilds (drain (turn (replicate (Suc m) (RequestSelect e)) w)) = rebuilds w @ [SelectTask e] \<and>
       pendingSelectRebuild (drain (turn (replicate (Suc m) (RequestSelect e)) w)) = {} \<and>
       microtasks (drain (turn (replicate (Suc m) (RequestSelect e)) w)) = [] \<and>
       selects (drain (turn (replicate (Suc m) (RequestSelect e)) w)) e =
         Some (s\<lparr>updating := False,
                  element := fst (rebuildSelectFromModel (debug w) (element s) model)\<rparr>))"
proof -
  have inv: "one_pending_per_key (turn reqs w)"
    using assms(1,2,3) by (intro turn_inv) (simp add: one_pending_per_key_def)
  have live: "anchor_live w rec"
    using assms(5,6,7) by (simp add: anchor_live_def)
  let ?w2 = "w\<lparr>pendingForRebuild := {r}, microtasks := [ForTask r],
      arrays := (arrays w)(r := Some xs)\<rparr>"
  have t: "turn (map (Mutate r) (ms @ [Some xs])) w = ?w2"
    by (rule turn_mutations_clean [OF assms(4) live assms(1,3)])
  have d: "drain ?w2 =
     ?w2\<lparr>pendingForRebuild := {}, microtasks := [],
        recs := (recs ?w2)(r \<mapsto> rec\<lparr>rendered := [next_id (document ?w2)..<next_id (document ?w2) + length xs]\<rparr>),
        document :=
          \<lparr>children = clear_rendered rec pre @
             n # map (\<lambda>i. clone rec i (next_id (document ?w2) + (length xs - 1 - i))) [0..<length xs] @
             clear_rendered rec post,
           next_id = next_id (document ?w2) + length xs\<rparr>,
        diags := diags ?w2,
        rebuilds := rebuilds ?w2 @ [ForTask r]\<rparr>"
    by (rule drain_single_rebuild [OF _ assms(5) _ assms(7,8,9)]) (simp_all add: assms(4,6))
  have sel: "microtasks (turn (replicate (Suc m) (RequestSelect e)) w) = [SelectTask e] \<and>
       rebuilds (drain (turn (replicate (Suc m) (RequestSelect e)) w)) = rebuilds w @ [SelectTask e] \<and>
       pendingSelectRebuild (drain (turn (replicate (Suc m) (RequestSelect e)) w)) = {} \<and>
       microtasks (drain (turn (replicate (Suc m) (RequestSelect e)) w)) = [] \<and>
       selects (drain (turn (replicate (Suc m) (RequestSelect e)) w)) e =
         Some (s\<lparr>updating := False,
                  element := fst (rebuildSelectFromModel (debug w) (element s) model)\<rparr>)"
    if h: "selects w e = Some s" "connected s" "\<not> updating s" "models w e = Some model"
  proof -
    let ?w3 = "w\<lparr>pendingSelectRebuild := insert e (pendingSelectRebuild w),
        microtasks := microtasks w @ [SelectTask e]\<rparr>"
    have ts: "turn (replicate (Suc m) (RequestSelect e)) w = ?w3"
      using turn_requests_clean [OF h(1), of m] assms(2) by simp
    have ds: "drain ?w3 =
       ?w3\<lparr>pendingSelectRebuild := {}, microtasks := [],
          selects := (selects ?w3)(e \<mapsto>
            s\<lparr>updating := False,
              element := fst (rebuildSelectFromModel (debug ?w3) (element s) model)\<rparr>),
          diags := diags ?w3 @ snd (rebuildSelectFromModel (debug ?w3) (element s) model),
          rebuilds := rebuilds ?w3 @ [SelectTask e]\<rparr>"
      by (rule drain_single_select [OF _ h(2,3)]) (simp_all add: h(1,4) assms(2,3))
    show ?thesis
      unfolding ts ds using assms(3) by simp
  qed
  have old: "one_pending_per_key (turn reqs w) \<and>
    (\<forall>k \<in> pendingForRebuild (turn reqs w). scheduleForRebuild k (turn reqs w) = turn reqs w) \<and>
    (\<forall>el \<in> pendingSelectRebuild (turn reqs w). scheduleSelectRebuild el (turn reqs w) = turn reqs w) \<and>
    k \<notin> pendingForRebuild (for_task k v) \<and>
    (recs v k = Some rec' \<and> \<not> anchor_live v rec' \<longrightarrow>
       for_task k v = v\<lparr>pendingForRebuild := pendingForRebuild v - {k}\<rparr>) \<and>
    microtasks (turn (map (Mutate r) (ms @ [Some xs])) w) = [ForTask r] \<and>
    rebuilds (drain (turn (map (Mutate r) (ms @ [Some xs])) w)) = rebuilds w @ [ForTask r] \<and>
    pendingForRebuild (drain (turn (map (Mutate r) (ms @ [Some xs])) w)) = {} \<and>
    microtasks (drain (turn (map (Mutate r) (ms @ [Some xs])) w)) = [] \<and>
    children (document (drain (turn (map (Mutate r) (ms @ [Some xs])) w))) =
      clear_rendered rec pre @
      n # map (\<lambda>i. clone rec i (next_id (document w) + (length xs - 1 - i))) [0..<length xs] @
      clear_rendered rec post"
    unfolding t d
    using inv scheduleForRebuild_pending scheduleSelectRebuild_pending
      for_task_clears [of k v] for_task_detached [of v k rec']
    by simp
  show ?thesis
    using old select_task_clears [of e v] select_task_detached [of v e s] sel by blast
qed

theorem C7_coalesced_rebuild_witness:
  "pendingForRebuild demo_world = {} \<and> pendingSelectRebuild demo_world = {} \<and>
   microtasks demo_world = [] \<and> recs demo_world 0 = Some items_rec \<and>
   anchor items_rec = Some 0 \<and> children (document demo_world) = [] @ anchor_node # [] \<and>
   nid anchor_node = 0 \<and> 0 \<notin> nid ` set [] \<and> 0 \<notin> set (rendered items_rec) \<and>
   microtasks (turn [Mutate 0 (Some [PStr ''x'']), Mutate 0 (Some [PStr ''x'', PStr ''y''])]
     demo_world) = [ForTask 0] \<and>
   rebuilds (drain (turn [Mutate 0 (Some [PStr ''x'']), Mutate 0 (Some [PStr ''x'', PStr ''y''])]
     demo_world)) = [ForTask 0] \<and>
   map forIndex (children (document (drain
     (turn [Mutate 0 (Some [PStr ''x'']), Mutate 0 (Some [PStr ''x'', PStr ''y''])] demo_world)))) =
     [None, Some 0, Some 1] \<and>
   selects demo_world 0 = Some \<lparr>connected = True, updating = False, element = empty_select\<rparr> \<and>
   models demo_world 0 = Some (abc_model ''b'') \<and>
   microtasks (turn [RequestSelect 0, RequestSelect 0] demo_world) = [SelectTask 0] \<and>
   rebuilds (drain (turn [RequestSelect 0, RequestSelect 0] demo_world)) = [SelectTask 0] \<and>
   pendingSelectRebuild (drain (turn [RequestSelect 0, RequestSelect 0] demo_world)) = {}"
proof -
  have h: "pendingForRebuild demo_world = {}" "pendingSelectRebuild demo_world = {}"
    "microtasks demo_world = []" "recs demo_world 0 = Some items_rec"
    "anchor items_rec = Some 0" "children (document demo_world) = [] @ anchor_node # []"
    "nid anchor_node = 0" "0 \<notin> nid ` set []" "0 \<notin> set (rendered items_rec)"
    by (simp_all add: demo_world_def items_world_def items_rec_def items_dom_def anchor_node_def)
  have r: "rebuilds demo_world = []"
    and s: "selects demo_world 0 = Some \<lparr>connected = True, updating = False, element = empty_select\<rparr>"
    and m: "models demo_world 0 = Some (abc_model ''b'')"
    by (simp_all add: demo_world_def items_world_def)
  have two: "replicate (Suc (Suc 0)) (RequestSelect 0) = [RequestSelect 0, RequestSelect 0]"
    by simp
  show ?thesis
    using h s m C7_coalesced_rebuild [OF h, of "[]" 0 demo_world items_rec "[Some [PStr ''x'']]"
        "[PStr ''x'', PStr ''y'']" 0 "\<lparr>connected = True, updating = False, element = empty_select\<rparr>"
        "abc_model ''b''" "Suc 0"]
    unfolding two
    by (simp add: r clear_rendered_def clone_def anchor_node_def)
qed


section \<open>The reactive wrapper\<close>

text \<open>
  Values: a primitive, a reference to a raw object or array (an address of the heap), a
  function (by name) or a proxy made by \<open>_wrap\<close> (by its number: two proxies are the same
  object exactly when their numbers are equal).
\<close>

type_synonym addr = nat

datatype val = Prim prim | Ref addr | Fun string | Proxy nat

abbreviation undefined_val :: val where "undefined_val \<equiv> Prim PUndefined"
abbreviation true_val :: val where "true_val \<equiv> Prim (PBool True)"

datatype kind = Plain | Array | ObjectPrototype | ArrayPrototype

text \<open>
  A raw object: its own data properties in insertion order, keyed by property name; the
  names of its own properties that are neither writable nor configurable (as
  \<open>Object.defineProperty\<close> and \<open>Object.freeze\<close> leave them); whether it is extensible.
  For an array the elements and \<open>length\<close> are properties like the others: that an index
  write moves \<open>length\<close> is not modelled. Accessor properties are not modelled, but for the
  getter of \<open>__proto__\<close>.
\<close>

record obj =
  kind :: kind
  props :: "(string \<times> val) list"
  locked :: "string list"
  extensible :: bool

text \<open>The heap holds \<open>Object.prototype\<close> at address 0 and \<open>Array.prototype\<close> at 1.\<close>

type_synonym heap = "addr \<Rightarrow> obj"

definition proto_chain :: "kind \<Rightarrow> addr list" where
  "proto_chain k =
     (case k of Plain \<Rightarrow> [0] | Array \<Rightarrow> [1, 0] | ArrayPrototype \<Rightarrow> [0] | ObjectPrototype \<Rightarrow> [])"

definition has_own :: "heap \<Rightarrow> addr \<Rightarrow> string \<Rightarrow> bool" where
  "has_own h a k = (map_of (props (h a)) k \<noteq> None)"

fun first_some :: "'a option list \<Rightarrow> 'a option" where
  "first_some [] = None"
| "first_some (None # xs) = first_some xs"
| "first_some (Some v # xs) = Some v"

text \<open>\<open>target[prop]\<close> and \<open>Reflect.get(target, prop)\<close> on a raw object: the own property,
  or the first one along the prototype chain.\<close>

definition lookup :: "heap \<Rightarrow> addr \<Rightarrow> string \<Rightarrow> val" where
  "lookup h a k =
     (case first_some (map (\<lambda>b. map_of (props (h b)) k) (a # proto_chain (kind (h a)))) of
        Some v \<Rightarrow> v
      | None \<Rightarrow>
          if k = ''__proto__''
          then (case proto_chain (kind (h a)) of [] \<Rightarrow> Prim PNull | b # bs \<Rightarrow> Ref b)
          else undefined_val)"

text \<open>\<open>a === b\<close>.\<close>

definition strict_eq :: "val \<Rightarrow> val \<Rightarrow> bool" where
  "strict_eq a b = (a = b \<and> a \<noteq> Prim PNaN)"

text \<open>Truthiness.\<close>

definition truthy :: "val \<Rightarrow> bool" where
  "truthy v =
     (v \<noteq> Prim PUndefined \<and> v \<noteq> Prim PNull \<and> v \<noteq> Prim (PBool False) \<and>
      v \<noteq> Prim (PNum 0) \<and> v \<noteq> Prim PNaN \<and> v \<noteq> Prim (PStr []))"

text \<open>An ordinary \<open>[[DefineOwnProperty]]\<close> with a value (\<open>lock\<close>: the descriptor leaves the
  property neither writable nor configurable), and an ordinary \<open>[[Delete]]\<close>: \<open>None\<close> when
  the object refuses.\<close>

fun put :: "string \<Rightarrow> val \<Rightarrow> (string \<times> val) list \<Rightarrow> (string \<times> val) list" where
  "put k v [] = [(k, v)]"
| "put k v ((k', v') # ps) = (if k' = k then (k, v) # ps else (k', v') # put k v ps)"

definition raw_define :: "obj \<Rightarrow> string \<Rightarrow> val \<Rightarrow> bool \<Rightarrow> obj option" where
  "raw_define ob k v lock =
     (if k \<in> set (locked ob) then (if map_of (props ob) k = Some v then Some ob else None)
      else if map_of (props ob) k = None \<and> \<not> extensible ob then None
      else Some (ob\<lparr>props := put k v (props ob),
                   locked := (if lock then k # locked ob else locked ob)\<rparr>))"

definition raw_delete :: "obj \<Rightarrow> string \<Rightarrow> obj option" where
  "raw_delete ob k =
     (if k \<in> set (locked ob) then None
      else Some (ob\<lparr>props := filter (\<lambda>p. fst p \<noteq> k) (props ob)\<rparr>))"

datatype ctype = CSet | CAdd | CDelete | CDefine

record change =
  c_type :: ctype
  c_path :: "key list"
  c_pathString :: string
  c_target :: addr
  c_prop :: string
  c_value :: val
  c_oldValue :: val

text \<open>
  The state behind \<open>_makeDeepProxy\<close>: the heap, \<open>rawPaths\<close> and \<open>proxyCache\<close> (a WeakMap of
  Maps each, the Maps in insertion order), the proxies made so far (proxy \<open>n\<close> is the
  \<open>n\<close>-th: its target and its \<open>pathArr\<close>), \<open>onChangeHook\<close>, and the changes handed to the
  hook so far.
\<close>

record wrapper =
  heap :: heap
  rawPaths :: "addr \<Rightarrow> (string \<times> key list) list"
  proxyCache :: "addr \<Rightarrow> (string \<times> nat) list"
  proxies :: "(addr \<times> key list) list"
  onChangeHook :: val
  emitted :: "change list"

definition is_function :: "val \<Rightarrow> bool" where
  "is_function v = (case v of Fun f \<Rightarrow> True | _ \<Rightarrow> False)"

text \<open>\<open>_emitChange\<close>.\<close>

definition emitChange :: "change \<Rightarrow> wrapper \<Rightarrow> wrapper" where
  "emitChange c st = (if is_function (onChangeHook st) then st\<lparr>emitted := emitted st @ [c]\<rparr> else st)"

text \<open>\<open>_registerRawPath\<close>, for a raw object or array.\<close>

definition registerRawPath :: "addr \<Rightarrow> key list \<Rightarrow> wrapper \<Rightarrow> wrapper" where
  "registerRawPath raw pathArr st =
     (if map_of (rawPaths st raw) (pathToString pathArr) \<noteq> None then st
      else st\<lparr>rawPaths := (rawPaths st)(raw := rawPaths st raw @ [(pathToString pathArr, pathArr)])\<rparr>)"

text \<open>\<open>_emitAllAliases\<close>.\<close>

definition emitAllAliases :: "addr \<Rightarrow> key list \<Rightarrow> (key list \<Rightarrow> change) \<Rightarrow> wrapper \<Rightarrow> wrapper" where
  "emitAllAliases targetRaw primaryPathArr changeFactory st =
     (if rawPaths st targetRaw = [] then emitChange (changeFactory primaryPathArr) st
      else fold (\<lambda>alias. emitChange (changeFactory (snd alias))) (rawPaths st targetRaw) st)"

definition isInternalKey :: "string \<Rightarrow> bool" where
  "isInternalKey k = (k = ''__isEzDeepProxy'' \<or> k = ''__onChange'' \<or> k = ''__raw'')"

text \<open>\<open>_wrap\<close>. A primitive or a function is returned as it is, and so is a proxy and a
  raw object whose \<open>__isEzDeepProxy\<close> is \<open>true\<close>.\<close>

definition wrap :: "val \<Rightarrow> key list \<Rightarrow> wrapper \<Rightarrow> val \<times> wrapper" where
  "wrap v pathArr st =
     (case v of
        Ref a \<Rightarrow>
          if lookup (heap st) a ''__isEzDeepProxy'' = true_val then (v, st)
          else
            (let st1 = registerRawPath a pathArr st
             in case map_of (proxyCache st1 a) (pathToString pathArr) of
                  Some p \<Rightarrow> (Proxy p, st1)
                | None \<Rightarrow>
                    (Proxy (length (proxies st1)),
                     st1\<lparr>proxyCache :=
                           (proxyCache st1)(a := proxyCache st1 a @
                              [(pathToString pathArr, length (proxies st1))]),
                         proxies := proxies st1 @ [(a, pathArr)]\<rparr>))
      | _ \<Rightarrow> (v, st))"


definition is_object :: "val \<Rightarrow> bool" where
  "is_object v = (case v of Ref a \<Rightarrow> True | Proxy p \<Rightarrow> True | _ \<Rightarrow> False)"

definition target_of :: "wrapper \<Rightarrow> nat \<Rightarrow> addr" where
  "target_of st p = fst (proxies st ! p)"

definition path_of :: "wrapper \<Rightarrow> nat \<Rightarrow> key list" where
  "path_of st p = snd (proxies st ! p)"

text \<open>The \<open>get\<close> trap of proxy \<open>p\<close>.\<close>

definition get_trap :: "nat \<Rightarrow> string \<Rightarrow> wrapper \<Rightarrow> val \<times> wrapper" where
  "get_trap p prop st =
     (if prop = ''__isEzDeepProxy'' then (true_val, st)
      else if prop = ''__raw'' then (Ref (target_of st p), st)
      else if prop = ''__onChange'' then (onChangeHook st, st)
      else (let out = lookup (heap st) (target_of st p) prop
            in if is_object out then wrap out (path_of st p @ [Str prop]) st else (out, st)))"

text \<open>\<open>(value && value.__isEzDeepProxy === true && value.__raw) ? value.__raw : value\<close>.
  Primitives and functions carry no properties in the model.\<close>

definition unwrap :: "wrapper \<Rightarrow> val \<Rightarrow> val" where
  "unwrap st v =
     (case v of
        Proxy q \<Rightarrow> Ref (target_of st q)
      | Ref a \<Rightarrow>
          if lookup (heap st) a ''__isEzDeepProxy'' = true_val \<and> truthy (lookup (heap st) a ''__raw'')
          then lookup (heap st) a ''__raw'' else v
      | _ \<Rightarrow> v)"

text \<open>The \<open>defineProperty\<close> trap of proxy \<open>p\<close>, for a descriptor with a value.\<close>

definition define_trap :: "nat \<Rightarrow> string \<Rightarrow> val \<Rightarrow> bool \<Rightarrow> wrapper \<Rightarrow> bool \<times> wrapper" where
  "define_trap p prop v lock st =
     (let target = target_of st p
      in if isInternalKey prop
         then (case raw_define (heap st target) prop v lock of
                 None \<Rightarrow> (False, st)
               | Some ob \<Rightarrow> (True, st\<lparr>heap := (heap st)(target := ob)\<rparr>))
         else
           (let had = has_own (heap st) target prop;
                oldValue = lookup (heap st) target prop
            in case raw_define (heap st target) prop v lock of
                 None \<Rightarrow> (False, st)
               | Some ob \<Rightarrow>
                   (True,
                    emitChange
                      \<lparr>c_type = (if had then CDefine else CAdd),
                       c_path = path_of st p @ [Str prop],
                       c_pathString = pathToString (path_of st p @ [Str prop]),
                       c_target = target, c_prop = prop,
                       c_value = lookup ((heap st)(target := ob)) target prop,
                       c_oldValue = oldValue\<rparr>
                      (st\<lparr>heap := (heap st)(target := ob)\<rparr>))))"

text \<open>
  \<open>Reflect.set(target, prop, newValue, receiver)\<close>, the receiver being the proxy itself
  (the case of \<open>proxy.prop = value\<close>). By OrdinarySetWithOwnDescriptor of ECMA-262, a
  property that is not writable refuses; otherwise the value is written through the
  receiver's \<open>[[DefineOwnProperty]]\<close>, which on a proxy is its \<open>defineProperty\<close> trap.
\<close>

definition reflect_set :: "nat \<Rightarrow> string \<Rightarrow> val \<Rightarrow> wrapper \<Rightarrow> bool \<times> wrapper" where
  "reflect_set p prop v st =
     (if prop \<in> set (locked (heap st (target_of st p))) then (False, st)
      else define_trap p prop v False st)"

text \<open>The \<open>set\<close> trap of proxy \<open>p\<close>.\<close>

definition set_change :: "bool \<Rightarrow> addr \<Rightarrow> string \<Rightarrow> val \<Rightarrow> val \<Rightarrow> key list \<Rightarrow> change" where
  "set_change had target prop newValue oldValue aliasPathArr =
     \<lparr>c_type = (if had then CSet else CAdd),
      c_path = aliasPathArr @ [Str prop],
      c_pathString = pathToString (aliasPathArr @ [Str prop]),
      c_target = target, c_prop = prop, c_value = newValue, c_oldValue = oldValue\<rparr>"

definition set_trap :: "nat \<Rightarrow> string \<Rightarrow> val \<Rightarrow> wrapper \<Rightarrow> bool \<times> wrapper" where
  "set_trap p prop v st =
     (if prop = ''__onChange''
      then (True, st\<lparr>onChangeHook := (if is_function v then v else Prim PNull)\<rparr>)
      else if isInternalKey prop then (True, st)
      else
        (let target = target_of st p;
             had = has_own (heap st) target prop;
             oldValue = lookup (heap st) target prop;
             newValue = unwrap st v
         in if had \<and> strict_eq oldValue newValue then (True, st)
            else (case reflect_set p prop newValue st of
                    (ok, st1) \<Rightarrow>
                      if \<not> ok then (False, st1)
                      else (True,
                        emitAllAliases target (path_of st p)
                          (set_change had target prop newValue oldValue) st1))))"

text \<open>The \<open>deleteProperty\<close> trap of proxy \<open>p\<close>.\<close>

definition delete_trap :: "nat \<Rightarrow> string \<Rightarrow> wrapper \<Rightarrow> bool \<times> wrapper" where
  "delete_trap p prop st =
     (if isInternalKey prop then (True, st)
      else if \<not> has_own (heap st) (target_of st p) prop then (True, st)
      else
        (let target = target_of st p
         in case raw_delete (heap st target) prop of
              None \<Rightarrow> (False, st)
            | Some ob \<Rightarrow>
                (True,
                 emitChange
                   \<lparr>c_type = CDelete,
                    c_path = path_of st p @ [Str prop],
                    c_pathString = pathToString (path_of st p @ [Str prop]),
                    c_target = target, c_prop = prop,
                    c_value = undefined_val,
                    c_oldValue = lookup (heap st) target prop\<rparr>
                   (st\<lparr>heap := (heap st)(target := ob)\<rparr>))))"

text \<open>\<open>_getAtPath\<close> from a proxy or a raw object: \<open>cur = cur[k]\<close> goes through the \<open>get\<close>
  trap on a proxy. A key is turned into a property name as \<open>String(k)\<close>.\<close>

fun key_name :: "key \<Rightarrow> string" where
  "key_name (Num n) = dec_digits n"
| "key_name (Str s) = s"



subsection \<open>Stable identity of wrapped views\<close>

text \<open>Every proxy number in the cache or stored in the heap names a proxy that exists, the
  cache files a proxy under its target and the canonical string of its path, and
  \<open>rawPaths\<close> files a path under its canonical string.\<close>

definition well_formed :: "wrapper \<Rightarrow> bool" where
  "well_formed st =
     ((\<forall>a k p. map_of (proxyCache st a) k = Some p \<longrightarrow>
         p < length (proxies st) \<and> fst (proxies st ! p) = a \<and>
         pathToString (snd (proxies st ! p)) = k) \<and>
      (\<forall>a k p. map_of (props (heap st a)) k = Some (Proxy p) \<longrightarrow> p < length (proxies st)) \<and>
      (\<forall>p. onChangeHook st = Proxy p \<longrightarrow> p < length (proxies st)) \<and>
      (\<forall>a ps arr. (ps, arr) \<in> set (rawPaths st a) \<longrightarrow> ps = pathToString arr))"





lemma map_of_snoc:
  "map_of (xs @ [(k, v)]) k' = (case map_of xs k' of Some w \<Rightarrow> Some w | None \<Rightarrow> if k' = k then Some v else None)"
  by (induction xs) auto




















subsection \<open>Events of a write and of a delete\<close>

text \<open>The change that the \<open>defineProperty\<close> trap reports.\<close>

definition define_change :: "wrapper \<Rightarrow> nat \<Rightarrow> string \<Rightarrow> val \<Rightarrow> change" where
  "define_change st p prop v =
     \<lparr>c_type = (if has_own (heap st) (target_of st p) prop then CDefine else CAdd),
      c_path = path_of st p @ [Str prop],
      c_pathString = pathToString (path_of st p @ [Str prop]),
      c_target = target_of st p, c_prop = prop,
      c_value = v,
      c_oldValue = lookup (heap st) (target_of st p) prop\<rparr>"

text \<open>The change that the \<open>deleteProperty\<close> trap reports.\<close>

definition delete_change :: "wrapper \<Rightarrow> nat \<Rightarrow> string \<Rightarrow> change" where
  "delete_change st p prop =
     \<lparr>c_type = CDelete,
      c_path = path_of st p @ [Str prop],
      c_pathString = pathToString (path_of st p @ [Str prop]),
      c_target = target_of st p, c_prop = prop,
      c_value = undefined_val,
      c_oldValue = lookup (heap st) (target_of st p) prop\<rparr>"

text \<open>The paths \<open>_emitAllAliases\<close> runs over.\<close>

definition alias_paths :: "wrapper \<Rightarrow> addr \<Rightarrow> key list \<Rightarrow> key list list" where
  "alias_paths st targetRaw primaryPathArr =
     (if rawPaths st targetRaw = [] then [primaryPathArr] else map snd (rawPaths st targetRaw))"

text \<open>The object takes the value: the property is writable, and the object extensible when
  the property is new.\<close>

definition writable :: "wrapper \<Rightarrow> addr \<Rightarrow> string \<Rightarrow> bool" where
  "writable st a prop =
     (prop \<notin> set (locked (heap st a)) \<and> (has_own (heap st) a prop \<or> extensible (heap st a)))"

lemma map_of_put: "map_of (put k v ps) k' = (if k' = k then Some v else map_of ps k')"
  by (induction ps) auto

lemma lookup_own: "map_of (props (h a)) k = Some v \<Longrightarrow> lookup h a k = v"
  by (simp add: lookup_def)

lemma fold_emitChange:
  "is_function (onChangeHook st) \<Longrightarrow>
   fold (\<lambda>x. emitChange (f x)) xs st = st\<lparr>emitted := emitted st @ map f xs\<rparr>"
proof (induction xs arbitrary: st)
  case Nil
  show ?case by simp
next
  case (Cons x xs)
  have "is_function (onChangeHook (emitChange (f x) st))"
    using Cons.prems by (simp add: emitChange_def)
  from Cons.IH [OF this] show ?case
    using Cons.prems by (simp add: emitChange_def)
qed

lemma emitAllAliases_events:
  "is_function (onChangeHook st) \<Longrightarrow>
   emitAllAliases a primary f st = st\<lparr>emitted := emitted st @ map f (alias_paths st a primary)\<rparr>"
  using fold_emitChange [of st "\<lambda>x. f (snd x)" "rawPaths st a"]
  by (simp add: emitAllAliases_def alias_paths_def emitChange_def comp_def)

lemma define_trap_accepts:
  assumes "\<not> isInternalKey prop" and "is_function (onChangeHook st)"
    and "writable st (target_of st p) prop"
  shows "reflect_set p prop v st =
     (True, st\<lparr>heap := (heap st)(target_of st p :=
                (heap st (target_of st p))\<lparr>props := put prop v (props (heap st (target_of st p)))\<rparr>),
              emitted := emitted st @ [define_change st p prop v]\<rparr>)"
proof -
  let ?a = "target_of st p"
  let ?ob = "(heap st ?a)\<lparr>props := put prop v (props (heap st ?a))\<rparr>"
  have rd: "raw_define (heap st ?a) prop v False = Some ?ob"
    using assms(3) by (auto simp: raw_define_def writable_def has_own_def)
  have lk: "lookup ((heap st)(?a := ?ob)) ?a prop = v"
    by (rule lookup_own) (simp add: map_of_put)
  show ?thesis
    using assms rd lk
    by (simp add: reflect_set_def define_trap_def Let_def writable_def emitChange_def
        define_change_def path_of_def target_of_def)
qed

lemma reflect_set_refuses:
  "\<not> writable st (target_of st p) prop \<Longrightarrow> reflect_set p prop v st = (False, st)"
  by (auto simp: reflect_set_def define_trap_def raw_define_def writable_def has_own_def Let_def)

lemma set_trap_unchanged:
  assumes "\<not> isInternalKey prop" and "has_own (heap st) (target_of st p) prop"
    and "strict_eq (lookup (heap st) (target_of st p) prop) (unwrap st v)"
  shows "set_trap p prop v st = (True, st)"
  using assms by (simp add: set_trap_def isInternalKey_def Let_def)

lemma set_trap_internal:
  "isInternalKey prop \<Longrightarrow> prop \<noteq> ''__onChange'' \<Longrightarrow> set_trap p prop v st = (True, st)"
  by (simp add: set_trap_def)

lemma set_trap_refused:
  assumes "\<not> isInternalKey prop" and "\<not> writable st (target_of st p) prop"
    and "\<not> (has_own (heap st) (target_of st p) prop \<and>
         strict_eq (lookup (heap st) (target_of st p) prop) (unwrap st v))"
  shows "set_trap p prop v st = (False, st)"
  using assms reflect_set_refuses [OF assms(2), of "unwrap st v"]
  by (auto simp: set_trap_def isInternalKey_def Let_def)

lemma set_trap_events:
  assumes "\<not> isInternalKey prop" and "is_function (onChangeHook st)"
    and "writable st (target_of st p) prop"
    and "\<not> (has_own (heap st) (target_of st p) prop \<and>
         strict_eq (lookup (heap st) (target_of st p) prop) (unwrap st v))"
  shows "\<exists>st'. set_trap p prop v st = (True, st') \<and>
     rawPaths st' = rawPaths st \<and> proxies st' = proxies st \<and>
     lookup (heap st') (target_of st p) prop = unwrap st v \<and>
     emitted st' = emitted st @ define_change st p prop (unwrap st v) #
       map (set_change (has_own (heap st) (target_of st p) prop) (target_of st p) prop
              (unwrap st v) (lookup (heap st) (target_of st p) prop))
         (alias_paths st (target_of st p) (path_of st p))"
proof -
  let ?a = "target_of st p"
  let ?v = "unwrap st v"
  let ?st1 = "st\<lparr>heap := (heap st)(?a := (heap st ?a)\<lparr>props := put prop ?v (props (heap st ?a))\<rparr>),
      emitted := emitted st @ [define_change st p prop ?v]\<rparr>"
  have rs: "reflect_set p prop ?v st = (True, ?st1)"
    by (rule define_trap_accepts [OF assms(1,2,3)])
  have hook: "is_function (onChangeHook ?st1)"
    using assms(2) by simp
  have ap: "alias_paths ?st1 ?a (path_of st p) = alias_paths st ?a (path_of st p)"
    by (simp add: alias_paths_def)
  have lk: "lookup (heap ?st1) ?a prop = ?v"
    by (rule lookup_own) (simp add: map_of_put)
  have "set_trap p prop v st =
      (True, emitAllAliases ?a (path_of st p)
        (set_change (has_own (heap st) ?a prop) ?a prop ?v (lookup (heap st) ?a prop)) ?st1)"
    using assms(1,4) rs by (auto simp: set_trap_def isInternalKey_def Let_def)
  then show ?thesis
    unfolding emitAllAliases_events [OF hook] ap using lk by simp
qed

lemma delete_trap_events:
  assumes "\<not> isInternalKey prop" and "is_function (onChangeHook st)"
    and "has_own (heap st) (target_of st p) prop"
    and "prop \<notin> set (locked (heap st (target_of st p)))"
  shows "\<exists>st'. delete_trap p prop st = (True, st') \<and>
     \<not> has_own (heap st') (target_of st p) prop \<and>
     emitted st' = emitted st @ [delete_change st p prop]"
proof -
  have "map_of (filter (\<lambda>x. fst x \<noteq> prop) ps) prop = None" for ps :: "(string \<times> val) list"
    by (induction ps) auto
  then show ?thesis
    using assms
    by (simp add: delete_trap_def raw_delete_def Let_def emitChange_def delete_change_def has_own_def)
qed

lemma delete_trap_absent:
  "\<not> has_own (heap st) (target_of st p) prop \<Longrightarrow> delete_trap p prop st = (True, st)"
  by (simp add: delete_trap_def)


section \<open>Change propagation\<close>







































subsection \<open>A small data graph\<close>

text \<open>
  \<open>Object.prototype\<close> and \<open>Array.prototype\<close> with some of their methods; the data root
  \<open>{x: o, y: o}\<close> at address 2, which carries the two locked properties that the module
  defines on it, and the shared object \<open>o = {leaf: 1, inner: {}}\<close> at address 3.
\<close>

definition object_prototype :: obj where
  "object_prototype =
     \<lparr>kind = ObjectPrototype,
      props = [(''constructor'', Fun ''Object''),
               (''hasOwnProperty'', Fun ''Object.prototype.hasOwnProperty''),
               (''isPrototypeOf'', Fun ''Object.prototype.isPrototypeOf''),
               (''propertyIsEnumerable'', Fun ''Object.prototype.propertyIsEnumerable''),
               (''toLocaleString'', Fun ''Object.prototype.toLocaleString''),
               (''toString'', Fun ''Object.prototype.toString''),
               (''valueOf'', Fun ''Object.prototype.valueOf'')],
      locked = [], extensible = True\<rparr>"

definition array_prototype :: obj where
  "array_prototype =
     \<lparr>kind = ArrayPrototype,
      props = [(''length'', Prim (PNum 0)), (''constructor'', Fun ''Array''),
               (''push'', Fun ''Array.prototype.push''), (''pop'', Fun ''Array.prototype.pop''),
               (''splice'', Fun ''Array.prototype.splice'')],
      locked = [], extensible = True\<rparr>"

definition plain_object :: "(string \<times> val) list \<Rightarrow> obj" where
  "plain_object ps = \<lparr>kind = Plain, props = ps, locked = [], extensible = True\<rparr>"

definition demo_root :: obj where
  "demo_root =
     \<lparr>kind = Plain,
      props = [(''x'', Ref 3), (''y'', Ref 3), (''__isEzDeepProxy'', true_val),
               (''__ezBindHookInstalled'', true_val)],
      locked = [''__isEzDeepProxy'', ''__ezBindHookInstalled''], extensible = True\<rparr>"

definition demo_heap :: heap where
  "demo_heap =
     (\<lambda>a. plain_object [])
       (0 := object_prototype, 1 := array_prototype, 2 := demo_root,
        3 := plain_object [(''leaf'', Prim (PNum 1)), (''inner'', Ref 4)])"

text \<open>The state after \<open>_makeDeepProxy\<close> and \<open>_installDataChangeHook\<close>: proxy 0 is
  \<open>system.data\<close>.\<close>

definition demo_state :: wrapper where
  "demo_state =
     \<lparr>heap = demo_heap,
      rawPaths = (\<lambda>a. [])(2 := [([], [])]),
      proxyCache = (\<lambda>a. [])(2 := [([], 0)]),
      proxies = [(2, [])],
      onChangeHook = Fun ''__onChange'',
      emitted = []\<rparr>"

text \<open>The state after \<open>system.data.x\<close> and \<open>system.data.y\<close> have been read: proxies 1 and 2
  are the two wrapped views of the shared object.\<close>

definition demo_aliased :: wrapper where
  "demo_aliased =
     \<lparr>heap = demo_heap,
      rawPaths = (\<lambda>a. [])(2 := [([], [])], 3 := [(''x'', [Str ''x'']), (''y'', [Str ''y''])]),
      proxyCache = (\<lambda>a. [])(2 := [([], 0)], 3 := [(''x'', 1), (''y'', 2)]),
      proxies = [(2, []), (3, [Str ''x'']), (3, [Str ''y''])],
      onChangeHook = Fun ''__onChange'',
      emitted = []\<rparr>"

lemma canonical_x: "pathToString [Str ''x''] = ''x''" "pathToString [Str ''y''] = ''y''"
  "pathToString [] = []"
  by code_simp+

lemma demo_lookup:
  "lookup demo_heap 2 ''x'' = Ref 3" "lookup demo_heap 2 ''y'' = Ref 3"
  "lookup demo_heap 3 ''__isEzDeepProxy'' = undefined_val"
  "lookup demo_heap 3 ''leaf'' = Prim (PNum 1)"
  by (simp_all add: lookup_def demo_heap_def demo_root_def plain_object_def proto_chain_def
      object_prototype_def)




lemma demo_aliased_fields:
  "heap demo_aliased = demo_heap" "proxies demo_aliased = [(2, []), (3, [Str ''x'']), (3, [Str ''y''])]"
  "rawPaths demo_aliased 3 = [(''x'', [Str ''x'']), (''y'', [Str ''y''])]"
  "onChangeHook demo_aliased = Fun ''__onChange''" "emitted demo_aliased = []"
  "target_of demo_aliased 1 = 3" "path_of demo_aliased 1 = [Str ''x'']"
  "target_of demo_aliased 2 = 3" "path_of demo_aliased 2 = [Str ''y'']"
  "target_of demo_aliased 0 = 2" "path_of demo_aliased 0 = []"
  "target_of demo_aliased (Suc 0) = 3" "path_of demo_aliased (Suc 0) = [Str ''x'']"
  by (simp_all add: demo_aliased_def target_of_def path_of_def)

lemma demo_state_fields:
  "heap demo_state = demo_heap" "proxies demo_state = [(2, [])]"
  "onChangeHook demo_state = Fun ''__onChange''" "emitted demo_state = []"
  "target_of demo_state 0 = 2" "path_of demo_state 0 = []"
  by (simp_all add: demo_state_def target_of_def path_of_def)

lemma demo_own:
  "has_own demo_heap 3 ''leaf''" "\<not> has_own demo_heap 2 ''__raw''"
  "has_own demo_heap 2 ''__ezBindHookInstalled''"
  "locked (demo_heap 3) = []" "extensible (demo_heap 3)"
  "''__ezBindHookInstalled'' \<in> set (locked (demo_heap 2))"
  by (simp_all add: has_own_def demo_heap_def demo_root_def plain_object_def)



lemma demo_heap_no_proxy: "map_of (props (demo_heap a)) k \<noteq> Some (Proxy q)"
  by (auto simp: demo_heap_def demo_root_def plain_object_def object_prototype_def
      array_prototype_def)


lemma demo_aliased_well_formed: "well_formed demo_aliased"
  using demo_heap_no_proxy
  by (auto simp: well_formed_def demo_aliased_def canonical_x nth_Cons' split: if_splits)

lemma canonical_leaf:
  "pathToString [Str ''x'', Str ''leaf''] = ''x.leaf''"
  "pathToString [Str ''y'', Str ''leaf''] = ''y.leaf''"
  by code_simp+


text \<open>
  C4, as stated: setting a previously absent key, or an existing property to a different
  value, emits events. Writing the absent key \<open>__raw\<close> (one of the wrapper's internal keys)
  returns without an event, and so does a write that the object refuses, as on the
  property \<open>__ezBindHookInstalled\<close>, which the module itself defines as not writable.
\<close>

theorem C4_write_counterexample:
  "\<not> has_own (heap demo_state) (target_of demo_state 0) ''__raw'' \<and>
   is_function (onChangeHook demo_state) \<and>
   set_trap 0 ''__raw'' (Prim (PNum 1)) demo_state = (True, demo_state) \<and>
   has_own (heap demo_state) (target_of demo_state 0) ''__ezBindHookInstalled'' \<and>
   \<not> strict_eq (lookup (heap demo_state) (target_of demo_state 0) ''__ezBindHookInstalled'')
        (Prim (PBool False)) \<and>
   set_trap 0 ''__ezBindHookInstalled'' (Prim (PBool False)) demo_state = (False, demo_state)"
proof -
  have i: "isInternalKey ''__raw''" "\<not> isInternalKey ''__ezBindHookInstalled''"
    by (simp_all add: isInternalKey_def)
  have l: "lookup demo_heap 2 ''__ezBindHookInstalled'' = true_val"
    by (simp add: lookup_def demo_heap_def demo_root_def)
  have w: "\<not> writable demo_state (target_of demo_state 0) ''__ezBindHookInstalled''"
    using demo_own by (simp add: writable_def demo_state_fields)
  have "set_trap 0 ''__ezBindHookInstalled'' (Prim (PBool False)) demo_state = (False, demo_state)"
    by (rule set_trap_refused [OF i(2) w])
      (simp add: demo_state_fields l strict_eq_def unwrap_def)
  then show ?thesis
    using demo_own set_trap_internal [OF i(1), of 0 "Prim (PNum 1)" demo_state]
    by (simp add: demo_state_fields is_function_def l strict_eq_def)
qed

text \<open>
  C4, amended: for a key that is not one of the wrapper's internal keys, setting an existing
  own property to a value identical (\<open>===\<close>) to its current value changes nothing and emits
  no event. Setting it to a different value, or setting an absent key, emits events when
  the object takes the value (the property is writable, the object extensible for a new
  key): the one the \<open>defineProperty\<close> trap reports while \<open>Reflect.set\<close> writes through the
  proxy, then one per alias path. A write that the object refuses returns false and emits
  nothing.
\<close>

theorem C4_idempotent_write:
  assumes "\<not> isInternalKey prop"
  shows "(has_own (heap st) (target_of st p) prop \<and>
      strict_eq (lookup (heap st) (target_of st p) prop) (unwrap st v) \<longrightarrow>
        set_trap p prop v st = (True, st)) \<and>
    (\<not> (has_own (heap st) (target_of st p) prop \<and>
        strict_eq (lookup (heap st) (target_of st p) prop) (unwrap st v)) \<and>
     is_function (onChangeHook st) \<and> writable st (target_of st p) prop \<longrightarrow>
       (\<exists>st'. set_trap p prop v st = (True, st') \<and>
          lookup (heap st') (target_of st p) prop = unwrap st v \<and>
          emitted st' = emitted st @ define_change st p prop (unwrap st v) #
            map (set_change (has_own (heap st) (target_of st p) prop) (target_of st p) prop
                   (unwrap st v) (lookup (heap st) (target_of st p) prop))
              (alias_paths st (target_of st p) (path_of st p)))) \<and>
    (\<not> (has_own (heap st) (target_of st p) prop \<and>
        strict_eq (lookup (heap st) (target_of st p) prop) (unwrap st v)) \<and>
     \<not> writable st (target_of st p) prop \<longrightarrow>
       set_trap p prop v st = (False, st))"
  using set_trap_unchanged [OF assms, of st p v] set_trap_events [OF assms, of st p v]
    set_trap_refused [OF assms, of st p v]
  by blast


theorem C4_idempotent_write_witness:
  "\<not> isInternalKey ''leaf'' \<and>
   has_own (heap demo_aliased) (target_of demo_aliased 1) ''leaf'' \<and>
   strict_eq (lookup (heap demo_aliased) (target_of demo_aliased 1) ''leaf'')
     (unwrap demo_aliased (Prim (PNum 1))) \<and>
   set_trap 1 ''leaf'' (Prim (PNum 1)) demo_aliased = (True, demo_aliased) \<and>
   is_function (onChangeHook demo_aliased) \<and>
   writable demo_aliased (target_of demo_aliased 1) ''leaf'' \<and>
   (\<exists>st'. set_trap 1 ''leaf'' (Prim (PNum 2)) demo_aliased = (True, st') \<and>
      map c_pathString (emitted st') = [''x.leaf'', ''x.leaf'', ''y.leaf''] \<and>
      map c_type (emitted st') = [CDefine, CSet, CSet]) \<and>
   \<not> writable demo_state (target_of demo_state 0) ''__ezBindHookInstalled'' \<and>
   set_trap 0 ''__ezBindHookInstalled'' (Prim (PBool False)) demo_state = (False, demo_state)"
proof -
  have i: "\<not> isInternalKey ''leaf''" "\<not> isInternalKey ''__ezBindHookInstalled''"
    by (simp_all add: isInternalKey_def)
  have same: "has_own (heap demo_aliased) (target_of demo_aliased 1) ''leaf'' \<and>
      strict_eq (lookup (heap demo_aliased) (target_of demo_aliased 1) ''leaf'')
        (unwrap demo_aliased (Prim (PNum 1)))"
    using demo_own by (simp add: demo_aliased_fields demo_lookup strict_eq_def unwrap_def)
  have other: "\<not> (has_own (heap demo_aliased) (target_of demo_aliased 1) ''leaf'' \<and>
      strict_eq (lookup (heap demo_aliased) (target_of demo_aliased 1) ''leaf'')
        (unwrap demo_aliased (Prim (PNum 2)))) \<and>
      is_function (onChangeHook demo_aliased) \<and>
      writable demo_aliased (target_of demo_aliased 1) ''leaf''"
    using demo_own
    by (simp add: demo_aliased_fields demo_lookup strict_eq_def unwrap_def is_function_def
        writable_def)
  have l: "lookup demo_heap 2 ''__ezBindHookInstalled'' = true_val"
    by (simp add: lookup_def demo_heap_def demo_root_def)
  have refused: "\<not> (has_own (heap demo_state) (target_of demo_state 0) ''__ezBindHookInstalled'' \<and>
      strict_eq (lookup (heap demo_state) (target_of demo_state 0) ''__ezBindHookInstalled'')
        (unwrap demo_state (Prim (PBool False)))) \<and>
      \<not> writable demo_state (target_of demo_state 0) ''__ezBindHookInstalled''"
    using demo_own by (simp add: demo_state_fields l strict_eq_def unwrap_def writable_def)
  have paths: "alias_paths demo_aliased 3 [Str ''x''] = [[Str ''x''], [Str ''y'']]"
    by (simp add: alias_paths_def demo_aliased_fields)
  from C4_idempotent_write [OF i(1), of demo_aliased 1 "Prim (PNum 2)"] other
  obtain st' where st': "set_trap 1 ''leaf'' (Prim (PNum 2)) demo_aliased = (True, st')"
    "emitted st' = emitted demo_aliased @
       define_change demo_aliased 1 ''leaf'' (unwrap demo_aliased (Prim (PNum 2))) #
       map (set_change (has_own (heap demo_aliased) (target_of demo_aliased 1) ''leaf'')
              (target_of demo_aliased 1) ''leaf'' (unwrap demo_aliased (Prim (PNum 2)))
              (lookup (heap demo_aliased) (target_of demo_aliased 1) ''leaf''))
         (alias_paths demo_aliased (target_of demo_aliased 1) (path_of demo_aliased 1))"
    by blast
  have ev: "map c_pathString (emitted st') = [''x.leaf'', ''x.leaf'', ''y.leaf''] \<and>
      map c_type (emitted st') = [CDefine, CSet, CSet]"
    unfolding st'(2) using demo_own
    by (simp add: demo_aliased_fields paths define_change_def set_change_def canonical_leaf)
  show ?thesis
    using i(1) same other refused st'(1) ev
      C4_idempotent_write [OF i(1), of demo_aliased 1 "Prim (PNum 1)"]
      C4_idempotent_write [OF i(2), of demo_state 0 "Prim (PBool False)"]
    by auto
qed

text \<open>
  C5, on the code: the shared object has been read through \<open>x\<close> and through \<open>y\<close>, so two
  alias paths are recorded for it; deleting \<open>leaf\<close> through \<open>system.data.x\<close> emits one
  \<open>delete\<close> event, for \<open>x.leaf\<close>, and none for \<open>y.leaf\<close>.
\<close>

theorem C5_delete_emits_once:
  "has_own (heap demo_aliased) (target_of demo_aliased 1) ''leaf'' \<and>
   map fst (rawPaths demo_aliased (target_of demo_aliased 1)) = [''x'', ''y''] \<and>
   (\<exists>st'. delete_trap 1 ''leaf'' demo_aliased = (True, st') \<and>
      map c_type (emitted st') = [CDelete] \<and>
      map c_pathString (emitted st') = [''x.leaf''] \<and>
      map c_value (emitted st') = [undefined_val] \<and>
      map c_oldValue (emitted st') = [Prim (PNum 1)])"
proof -
  have i: "\<not> isInternalKey ''leaf''"
    by (simp add: isInternalKey_def)
  have h: "is_function (onChangeHook demo_aliased)"
    "has_own (heap demo_aliased) (target_of demo_aliased 1) ''leaf''"
    "''leaf'' \<notin> set (locked (heap demo_aliased (target_of demo_aliased 1)))"
    using demo_own by (simp_all add: demo_aliased_fields is_function_def)
  from delete_trap_events [OF i h]
  obtain st' where st': "delete_trap 1 ''leaf'' demo_aliased = (True, st')"
    "emitted st' = emitted demo_aliased @ [delete_change demo_aliased 1 ''leaf'']"
    by blast
  have "map c_type (emitted st') = [CDelete] \<and>
      map c_pathString (emitted st') = [''x.leaf''] \<and>
      map c_value (emitted st') = [undefined_val] \<and>
      map c_oldValue (emitted st') = [Prim (PNum 1)]"
    unfolding st'(2)
    by (simp add: demo_aliased_fields delete_change_def canonical_leaf demo_lookup)
  then show ?thesis
    using h(2) st'(1) by (auto simp: demo_aliased_fields)
qed




subsection \<open>Aliases\<close>
















section \<open>Event handlers\<close>

text \<open>\<open>s.replace(/\(\)\s*;?\s*$/, "")\<close>: a trailing \<open>()\<close>, with an optional semicolon and
  white space after it, is cut off.\<close>

definition strip_call :: "string \<Rightarrow> string" where
  "strip_call s =
     (let r1 = dropWhile isSpace (rev s);
          r2 = (case r1 of [] \<Rightarrow> [] | c # cs \<Rightarrow> if c = CHR '';'' then cs else r1);
          r3 = dropWhile isSpace r2
      in case r3 of
           c # d # rest \<Rightarrow> if c = CHR '')'' \<and> d = CHR ''('' then rev rest else s
         | _ \<Rightarrow> s)"

text \<open>The main loop of \<open>_parsePathLoose\<close>: as in \<open>_parsePath\<close>, but a bracket may hold an
  identifier.\<close>

function parse_loop_loose :: "string \<Rightarrow> key list" where
  "parse_loop_loose [] = []"
| "parse_loop_loose (ch # cs) =
     (if ch = CHR ''.'' then parse_loop_loose cs
      else if ch = CHR ''['' then
        (let r = skip_ws cs in
         if r \<noteq> [] \<and> (hd r = dquote \<or> hd r = squote) then
           Str (fst (scan_quoted (hd r) (tl r))) #
             parse_loop_loose
               (skip_char CHR '']'' (skip_ws (skip_char (hd r) (snd (scan_quoted (hd r) (tl r))))))
         else if takeWhile isDigit r = [] \<and> r \<noteq> [] \<and> isIdentStart (hd r) then
           Str (takeWhile isIdentChar r) #
             parse_loop_loose (skip_char CHR '']'' (skip_ws (dropWhile isIdentChar r)))
         else
           (if takeWhile isDigit r \<noteq> [] then [Num (parseInt (takeWhile isDigit r))] else []) @
             parse_loop_loose (skip_char CHR '']'' (skip_ws (dropWhile isDigit r))))
      else if isIdentStart ch then
        Str (takeWhile isIdentChar (ch # cs)) # parse_loop_loose (dropWhile isIdentChar (ch # cs))
      else parse_loop_loose cs)"
  by pat_completeness auto
termination
proof (relation "measure length", goal_cases)
  case 1
  show ?case by simp
next
  case (2 ch cs)
  show ?case by simp
next
  case (3 ch cs r)
  have "length (tl r) \<le> length cs"
    using 3 skip_ws_length [of cs] by (cases r) auto
  then show ?case
    using bracket_rest_length [of "CHR '']''" "hd r" "hd r" "tl r"] by simp
next
  case (4 ch cs r)
  then show ?case
    using number_rest_length [of "CHR '']''" isIdentChar "skip_ws cs"] skip_ws_length [of cs] by simp
next
  case (5 ch cs r)
  then show ?case
    using number_rest_length [of "CHR '']''" isDigit "skip_ws cs"] skip_ws_length [of cs] by simp
next
  case (6 ch cs)
  then show ?case
    by (simp add: isIdentChar_def length_dropWhile_le less_Suc_eq_le)
next
  case (7 ch cs)
  show ?case by simp
qed

definition parsePathLoose :: "string \<Rightarrow> key list" where
  "parsePathLoose pathString =
     (let s = trim pathString;
          s1 = (if take 12 s = ''system.data.'' then drop 12 s else s)
      in parse_loop_loose (strip_call s1))"

text \<open>\<open>cur[k]\<close> on any value: through the \<open>get\<close> trap on a proxy.\<close>

definition get_member :: "val \<Rightarrow> key \<Rightarrow> wrapper \<Rightarrow> val \<times> wrapper" where
  "get_member cur k st =
     (case cur of
        Proxy p \<Rightarrow> get_trap p (key_name k) st
      | Ref a \<Rightarrow> (lookup (heap st) a (key_name k), st)
      | _ \<Rightarrow> (undefined_val, st))"

definition is_nullish :: "val \<Rightarrow> bool" where
  "is_nullish v = (v = Prim PUndefined \<or> v = Prim PNull)"

fun getAtPathSafe :: "val \<Rightarrow> key list \<Rightarrow> wrapper \<Rightarrow> val \<times> wrapper" where
  "getAtPathSafe cur [] st = (cur, st)"
| "getAtPathSafe cur (k # ks) st =
     (if is_nullish cur then (undefined_val, st)
      else if k = Str ''__proto__'' \<or> k = Str ''prototype'' \<or> k = Str ''constructor''
      then (undefined_val, st)
      else (case get_member cur k st of (v, st1) \<Rightarrow> getAtPathSafe v ks st1))"

text \<open>\<open>_executeCodeString\<close>: the function it calls and the \<open>this\<close> it calls it on, if any.
  \<open>data\<close> is \<open>system.data\<close>.\<close>

datatype invocation = NotInvoked | Invoked val val

definition executeCodeString :: "string \<Rightarrow> val \<Rightarrow> wrapper \<Rightarrow> invocation" where
  "executeCodeString codeString data st =
     (if trim codeString = [] then NotInvoked
      else
        (let pathArr = parsePathLoose (trim codeString)
         in if pathArr = [] then NotInvoked
            else
              (case (if butlast pathArr = [] then (data, st)
                     else getAtPathSafe data (butlast pathArr) st) of
                 (parent, st1) \<Rightarrow>
                   (let fn = (if is_nullish parent then undefined_val
                              else fst (get_member parent (last pathArr) st1))
                    in if is_function fn then Invoked fn parent else NotInvoked))))"

lemma parse_constructor: "parsePathLoose ''constructor'' = [Str ''constructor'']"
  by code_simp

lemma parse_x_constructor: "parsePathLoose ''x.constructor()'' = [Str ''x'', Str ''constructor'']"
  by code_simp

lemma parse_constructor_x: "parsePathLoose ''constructor.x'' = [Str ''constructor'', Str ''x'']"
  by code_simp

lemma trim_examples:
  "trim ''constructor'' = ''constructor''" "trim ''x.constructor()'' = ''x.constructor()''"
  "trim ''constructor.x'' = ''constructor.x''"
  by code_simp+


lemma demo_constructor:
  "lookup demo_heap 2 ''constructor'' = Fun ''Object''"
  "lookup demo_heap 3 ''constructor'' = Fun ''Object''"
  by (simp_all add: lookup_def demo_heap_def demo_root_def plain_object_def proto_chain_def
      object_prototype_def)

lemma demo_member_constructor:
  "get_member (Proxy 0) (Str ''constructor'') demo_aliased = (Fun ''Object'', demo_aliased)"
  "get_member (Proxy 1) (Str ''constructor'') demo_aliased = (Fun ''Object'', demo_aliased)"
  "get_member (Proxy (Suc 0)) (Str ''constructor'') demo_aliased = (Fun ''Object'', demo_aliased)"
  by (simp_all add: get_member_def get_trap_def Let_def is_object_def
      demo_aliased_fields demo_constructor)

lemma demo_member_x:
  "get_member (Proxy 0) (Str ''x'') demo_aliased = (Proxy 1, demo_aliased)"
  by (simp add: get_member_def get_trap_def Let_def is_object_def wrap_def
      registerRawPath_def demo_aliased_fields demo_lookup canonical_x)
    (simp add: demo_aliased_def)

text \<open>A refused key anywhere in the path given to \<open>_getAtPathSafe\<close> makes it return
  \<open>undefined\<close>.\<close>

lemma getAtPathSafe_refuses:
  "k \<in> set ks \<Longrightarrow> k = Str ''__proto__'' \<or> k = Str ''prototype'' \<or> k = Str ''constructor'' \<Longrightarrow>
     fst (getAtPathSafe cur ks st) = undefined_val"
proof (induction ks arbitrary: cur st)
  case Nil
  then show ?case by simp
next
  case (Cons a ks)
  show ?case
  proof (cases "is_nullish cur \<or> a = Str ''__proto__'' \<or> a = Str ''prototype'' \<or> a = Str ''constructor''")
    case True
    then show ?thesis by auto
  next
    case False
    then have "k \<in> set ks" using Cons.prems by auto
    then show ?thesis
      using False Cons.IH Cons.prems(2) by (auto split: prod.splits)
  qed
qed

text \<open>
  C10: a handler path is refused when one of its segments is \<open>__proto__\<close>, \<open>prototype\<close> or
  \<open>constructor\<close>. In the code only the segments before the last one go through
  \<open>_getAtPathSafe\<close>; the last one is read from the parent as it is. On a model whose objects
  inherit from \<open>Object.prototype\<close>, the handler strings \<open>constructor\<close> and \<open>x.constructor()\<close>
  resolve to the \<open>Object\<close> constructor and it is called, with the parent as \<open>this\<close>; only
  \<open>constructor.x\<close>, where the key is not the last segment, is refused.
\<close>

theorem C10_last_segment_unchecked:
  "executeCodeString ''constructor'' (Proxy 0) demo_aliased = Invoked (Fun ''Object'') (Proxy 0) \<and>
   executeCodeString ''x.constructor()'' (Proxy 0) demo_aliased = Invoked (Fun ''Object'') (Proxy 1) \<and>
   executeCodeString ''constructor.x'' (Proxy 0) demo_aliased = NotInvoked"
  unfolding executeCodeString_def trim_examples parse_constructor parse_x_constructor
    parse_constructor_x
  by (simp add: demo_member_constructor demo_member_x is_nullish_def is_function_def)


section \<open>Fan-out of a change event\<close>




























end
